theory Spec2Isabelle
  imports Complex_Main "HOL-Library.Word"
begin

section \<open>The matrix substrate\<close>

text \<open>
  Modelled from the spec: the matrix type. The header \<^verbatim>\<open>numpycpp.h\<close> is a set of free
  functions over \<^verbatim>\<open>Eigen::MatrixXf\<close>, the dense, dynamically sized, column-major matrix
  of the Eigen library, which the header includes and does not define. Section 6 of the
  specification lists what this substrate supplies (rows, cols, element access, block
  assignment, diagonal extraction, zero-initialised construction, copy); where the
  specification leaves the behaviour open (storage order, assertions, the comma
  initializer) the definitions follow the documented behaviour of Eigen.

  A matrix is its two dimensions and its coefficient buffer in storage order: the
  coefficient \<open>(i, j)\<close> is stored at index \<open>j * rows + i\<close>. The dimensions are of type
  \<^verbatim>\<open>Eigen::Index\<close>; they are never negative and are modelled as natural numbers. The
  element type is a parameter: the structural operations do not look at the elements,
  and the operations that compute with them name the arithmetic they need. The diagonal
  test compares a computed sum with a constant, so it is modelled on the floats
  themselves, with their rounding.
  Assertions of the substrate are taken as enabled (the default), and running out of
  memory is not modelled.
\<close>

record 'a matrix =
  nrows :: nat
  ncols :: nat
  coeffs :: "'a list"

text \<open>A matrix value of the substrate always owns exactly \<open>rows * cols\<close> coefficients.\<close>

definition wf :: "'a matrix \<Rightarrow> bool" where
  "wf m = (length (coeffs m) = nrows m * ncols m)"

text \<open>Element access \<^verbatim>\<open>m(i, j)\<close> inside the bounds.\<close>

definition coeff :: "'a matrix \<Rightarrow> nat \<Rightarrow> nat \<Rightarrow> 'a" where
  "coeff m i j = coeffs m ! (j * nrows m + i)"

text \<open>
  The header raises no error of its own. What can go wrong is an \<^verbatim>\<open>eigen_assert\<close> of
  the substrate (by default a C \<^verbatim>\<open>assert\<close>, which aborts the process) or behaviour the
  language leaves undefined (reading past a buffer, overflow of a signed counter). The
  error kind \<open>shape_mismatch\<close> of the specification, an error handed back to the caller,
  is the third constructor.
\<close>

datatype error = shape_mismatch | assertion_failure | undefined_behaviour

text \<open>\<^verbatim>\<open>uint32_t\<close>: arithmetic wraps modulo \<open>2 ^ 32\<close>; an \<^verbatim>\<open>Eigen::Index\<close> assigned to it is
  truncated (\<open>of_nat\<close>), and \<open>unat\<close> converts back.\<close>

type_synonym uint32 = "32 word"

text \<open>
  \<^verbatim>\<open>Eigen::MatrixXf m(r, c)\<close> allocates without initialising. The content of the fresh
  buffer is the parameter \<open>junk\<close> (the value found at each index), so that nothing proved
  below depends on it.
\<close>

definition uninitialized :: "(nat \<Rightarrow> 'a) \<Rightarrow> nat \<Rightarrow> nat \<Rightarrow> 'a matrix" where
  "uninitialized junk r c = \<lparr>nrows = r, ncols = c, coeffs = map junk [0..<r * c]\<rparr>"

text \<open>\<^verbatim>\<open>Eigen::MatrixXf::Zero(r, c)\<close>.\<close>

definition Zero :: "nat \<Rightarrow> nat \<Rightarrow> 'a::zero matrix" where
  "Zero r c = \<lparr>nrows = r, ncols = c, coeffs = replicate (r * c) 0\<rparr>"

text \<open>
  \<^verbatim>\<open>dst.block(r0, c0, h, w) = src\<close>. The block expression asserts that the region lies
  inside \<open>dst\<close>, the assignment asserts that \<open>src\<close> has the shape of the region (a block
  cannot be resized). Then every coefficient of the region is overwritten.
\<close>

definition set_block ::
  "'a matrix \<Rightarrow> nat \<Rightarrow> nat \<Rightarrow> nat \<Rightarrow> nat \<Rightarrow> 'a matrix \<Rightarrow> error + 'a matrix" where
  "set_block dst r0 c0 h w src =
     (if r0 + h \<le> nrows dst \<and> c0 + w \<le> ncols dst \<and> nrows src = h \<and> ncols src = w
      then Inr (dst\<lparr>coeffs :=
             map (\<lambda>k. let i = k mod nrows dst; j = k div nrows dst in
                       if r0 \<le> i \<and> i < r0 + h \<and> c0 \<le> j \<and> j < c0 + w
                       then coeff src (i - r0) (j - c0)
                       else coeffs dst ! k)
                 [0..<length (coeffs dst)]\<rparr>)
      else Inl assertion_failure)"

subsection \<open>The comma initializer\<close>

text \<open>
  \<^verbatim>\<open>rm << m1, m2\<close> builds a \<^verbatim>\<open>CommaInitializer\<close> from \<open>rm\<close> and \<open>m1\<close>, feeds it \<open>m2\<close>
  through \<^verbatim>\<open>operator,\<close> and destroys it at the end of the statement, which calls
  \<^verbatim>\<open>finished()\<close>. The initializer keeps the target, the row and column of the cursor and
  the height of the current row of blocks. The three steps follow Eigen 3.3 and later:
  a block starts a new row of blocks when the cursor is at the right edge, every block
  must fit and have the height of its row, and at the end the target must be full.
\<close>

record 'a comma_initializer =
  m_xpr :: "'a matrix"
  m_row :: nat
  m_col :: nat
  m_currentBlockRows :: nat

definition comma_init :: "'a matrix \<Rightarrow> 'a matrix \<Rightarrow> error + 'a comma_initializer" where
  "comma_init xpr other =
     (case set_block xpr 0 0 (nrows other) (ncols other) other of
        Inl e \<Rightarrow> Inl e
      | Inr x \<Rightarrow> Inr \<lparr>m_xpr = x, m_row = 0, m_col = ncols other,
                      m_currentBlockRows = nrows other\<rparr>)"

definition comma_next ::
  "'a comma_initializer \<Rightarrow> 'a matrix \<Rightarrow> error + 'a comma_initializer" where
  "comma_next s other =
     (let new_row = (m_col s = ncols (m_xpr s) \<and>
                     (ncols other \<noteq> 0 \<or> nrows other \<noteq> m_currentBlockRows s));
          s1 = (if new_row
                then s\<lparr>m_row := m_row s + m_currentBlockRows s, m_col := 0,
                       m_currentBlockRows := nrows other\<rparr>
                else s)
      in if new_row \<and> \<not> m_row s1 + m_currentBlockRows s1 \<le> nrows (m_xpr s1)
         then Inl assertion_failure
         else if \<not> m_col s1 + ncols other \<le> ncols (m_xpr s1) then Inl assertion_failure
         else if m_currentBlockRows s1 \<noteq> nrows other then Inl assertion_failure
         else (case set_block (m_xpr s1) (m_row s1) (m_col s1) (nrows other) (ncols other) other of
                 Inl e \<Rightarrow> Inl e
               | Inr x \<Rightarrow> Inr (s1\<lparr>m_xpr := x, m_col := m_col s1 + ncols other\<rparr>)))"

definition comma_finished :: "'a comma_initializer \<Rightarrow> error + 'a matrix" where
  "comma_finished s =
     (if (m_row s + m_currentBlockRows s = nrows (m_xpr s) \<or> ncols (m_xpr s) = 0)
         \<and> m_col s = ncols (m_xpr s)
      then Inr (m_xpr s)
      else Inl assertion_failure)"

text \<open>The whole statement \<^verbatim>\<open>rm << m1, m2;\<close>.\<close>

definition comma2 :: "'a matrix \<Rightarrow> 'a matrix \<Rightarrow> 'a matrix \<Rightarrow> error + 'a matrix" where
  "comma2 rm m1 m2 =
     (case comma_init rm m1 of
        Inl e \<Rightarrow> Inl e
      | Inr s \<Rightarrow> (case comma_next s m2 of
                   Inl e \<Rightarrow> Inl e
                 | Inr s' \<Rightarrow> comma_finished s'))"

section \<open>Concatenation\<close>

text \<open>
  \<^verbatim>\<open>vstack\<close> returns the other operand when one has no rows. Otherwise the column count
  is read into a \<^verbatim>\<open>uint32_t\<close> from \<open>m1\<close> (from \<open>m2\<close> when that is zero), the result is
  allocated with \<^verbatim>\<open>m1.rows()+m2.rows()\<close> rows and filled by the comma initializer. The
  header compares no column counts. The sum of the row counts is a sum in
  \<^verbatim>\<open>Eigen::Index\<close>, a signed 64-bit integer, whose overflow is undefined.
\<close>

definition vstack :: "(nat \<Rightarrow> 'a) \<Rightarrow> 'a matrix \<Rightarrow> 'a matrix \<Rightarrow> error + 'a matrix" where
  "vstack junk m1 m2 =
     (if nrows m1 = 0 then Inr m2
      else if nrows m2 = 0 then Inr m1
      else
        let ncol0 = (of_nat (ncols m1) :: uint32);
            ncol = (if ncol0 = 0 then of_nat (ncols m2) else ncol0)
        in if 2 ^ 63 \<le> nrows m1 + nrows m2 then Inl undefined_behaviour
           else comma2 (uninitialized junk (nrows m1 + nrows m2) (unat ncol)) m1 m2)"

text \<open>\<^verbatim>\<open>hstack\<close> is the same with rows and columns exchanged.\<close>

definition hstack :: "(nat \<Rightarrow> 'a) \<Rightarrow> 'a matrix \<Rightarrow> 'a matrix \<Rightarrow> error + 'a matrix" where
  "hstack junk m1 m2 =
     (if ncols m1 = 0 then Inr m2
      else if ncols m2 = 0 then Inr m1
      else
        let nrow0 = (of_nat (nrows m1) :: uint32);
            nrow = (if nrow0 = 0 then of_nat (nrows m2) else nrow0)
        in if 2 ^ 63 \<le> ncols m1 + ncols m2 then Inl undefined_behaviour
           else comma2 (uninitialized junk (unat nrow) (ncols m1 + ncols m2)) m1 m2)"

section \<open>Reshape\<close>

text \<open>
  \<^verbatim>\<open>reshape\<close> maps the buffer of \<open>x\<close> as an \<open>r\<close> by \<open>c\<close> matrix
  (\<^verbatim>\<open>Eigen::Map<Eigen::MatrixXf> rx(x.data(), r, c)\<close>) and returns a copy of the map. The
  map knows the pointer only, not the size of the buffer: nothing compares \<open>r * c\<close> with
  the size of \<open>x\<close>. The copy reads the first \<open>r * c\<close> coefficients in storage order; when
  the buffer is shorter the read runs past its end.
\<close>

definition reshape :: "'a matrix \<Rightarrow> uint32 \<Rightarrow> uint32 \<Rightarrow> error + 'a matrix" where
  "reshape x r c =
     (if unat r * unat c \<le> length (coeffs x)
      then Inr \<lparr>nrows = unat r, ncols = unat c, coeffs = take (unat r * unat c) (coeffs x)\<rparr>
      else Inl undefined_behaviour)"

section \<open>Single-precision arithmetic\<close>

text \<open>
  The elements are 32-bit floats (IEEE 754 binary32, rounding to nearest, ties to even).
  A finite float is given by its exact value, a rational number; the other values are
  the two infinities and NaN. The sign of a zero is not kept: subtraction, addition,
  absolute value and comparison, the operations of the diagonal test, give the same
  truth value for both zeros.
\<close>

datatype float32 = Finite rat | PInf | NInf | NaN

text \<open>\<open>pow2 e\<close> is \<open>2\<close> to the power \<open>e\<close>, also for negative \<open>e\<close>.\<close>

definition pow2 :: "int \<Rightarrow> rat" where
  "pow2 e = (if 0 \<le> e then 2 ^ nat e else 1 / 2 ^ nat (- e))"

text \<open>The number of binary digits of a positive integer.\<close>

function bit_length :: "int \<Rightarrow> nat" where
  "bit_length n = (if n \<le> 0 then 0 else Suc (bit_length (n div 2)))"
  by pat_completeness auto
termination
  by (relation "measure nat") auto

declare bit_length.simps [simp del]

text \<open>
  The binary exponent of a positive rational \<open>q\<close>: the \<open>e\<close> with \<open>2 ^ e \<le> q < 2 ^ (e + 1)\<close>.
  With \<open>q = a / b\<close> it is the difference of the bit lengths of \<open>a\<close> and \<open>b\<close>, or one less.
\<close>

definition ilog2 :: "rat \<Rightarrow> int" where
  "ilog2 q = (case quotient_of q of (a, b) \<Rightarrow>
               let k = int (bit_length a) - int (bit_length b)
               in if pow2 k \<le> q then k else k - 1)"

text \<open>Rounding to the nearest integer, a tie to the even one.\<close>

definition round_even :: "rat \<Rightarrow> int" where
  "round_even r = (let f = \<lfloor>r\<rfloor>; d = r - of_int f
                   in if d < 1 / 2 then f else if 1 / 2 < d then f + 1
                      else if even f then f else f + 1)"

text \<open>
  Rounding an exact result to binary32. The significand has 24 bits, so the unit in the
  last place is \<open>2 ^ (e - 23)\<close> for a value with binary exponent \<open>e\<close>, and not below
  \<open>2 ^ - 149\<close> (subnormal numbers). A result that rounds to \<open>2 ^ 128\<close> or beyond in
  magnitude overflows to an infinity.
\<close>

definition round32 :: "rat \<Rightarrow> float32" where
  "round32 q =
     (if q = 0 then Finite 0
      else let e = max (ilog2 \<bar>q\<bar> - 23) (- 149);
               v = of_int (round_even (q / pow2 e)) * pow2 e
           in if pow2 128 \<le> \<bar>v\<bar> then (if 0 < q then PInf else NInf) else Finite v)"

text \<open>A finite value is a float when rounding leaves it as it is.\<close>

definition is_float32 :: "float32 \<Rightarrow> bool" where
  "is_float32 x = (case x of Finite q \<Rightarrow> round32 q = Finite q | _ \<Rightarrow> True)"

fun fneg :: "float32 \<Rightarrow> float32" where
  "fneg (Finite q) = Finite (- q)"
| "fneg PInf = NInf"
| "fneg NInf = PInf"
| "fneg NaN = NaN"

text \<open>Addition: NaN propagates, opposite infinities give NaN, finite sums are rounded.\<close>

fun fadd :: "float32 \<Rightarrow> float32 \<Rightarrow> float32" where
  "fadd (Finite a) (Finite b) = round32 (a + b)"
| "fadd (Finite a) PInf = PInf"
| "fadd (Finite a) NInf = NInf"
| "fadd PInf (Finite b) = PInf"
| "fadd NInf (Finite b) = NInf"
| "fadd PInf PInf = PInf"
| "fadd NInf NInf = NInf"
| "fadd PInf NInf = NaN"
| "fadd NInf PInf = NaN"
| "fadd NaN y = NaN"
| "fadd x NaN = NaN"

definition fsub :: "float32 \<Rightarrow> float32 \<Rightarrow> float32" where
  "fsub x y = fadd x (fneg y)"

text \<open>\<^verbatim>\<open>std::abs\<close> on a float.\<close>

fun fabs :: "float32 \<Rightarrow> float32" where
  "fabs (Finite q) = Finite \<bar>q\<bar>"
| "fabs PInf = PInf"
| "fabs NInf = PInf"
| "fabs NaN = NaN"

text \<open>
  The comparison \<^verbatim>\<open>x >= d\<close> of a float with a double: the float is converted exactly, a
  NaN compares false.
\<close>

fun ge_double :: "float32 \<Rightarrow> rat \<Rightarrow> bool" where
  "ge_double (Finite q) d = (d \<le> q)"
| "ge_double PInf d = True"
| "ge_double NInf d = False"
| "ge_double NaN d = False"

text \<open>The literal \<^verbatim>\<open>0.00001\<close> is a double: the double nearest to \<open>1 / 100000\<close>.\<close>

definition double_0_00001 :: rat where
  "double_0_00001 = 5902958103587057 / 2 ^ 69"

text \<open>The arithmetic of the matrix operations on floats.\<close>

instantiation float32 :: "{zero, plus, minus}"
begin

definition zero_float32 :: float32 where
  "zero_float32 = Finite 0"

definition plus_float32 :: "float32 \<Rightarrow> float32 \<Rightarrow> float32" where
  "plus_float32 x y = fadd x y"

definition minus_float32 :: "float32 \<Rightarrow> float32 \<Rightarrow> float32" where
  "minus_float32 x y = fsub x y"

instance ..

end

section \<open>The diagonal test\<close>

text \<open>\<^verbatim>\<open>x.diagonal()\<close>: the coefficients \<open>(i, i)\<close>, as many as the smaller dimension.\<close>

definition diagonal :: "'a matrix \<Rightarrow> 'a list" where
  "diagonal x = map (\<lambda>i. coeff x i i) [0..<min (nrows x) (ncols x)]"

text \<open>\<^verbatim>\<open>v.asDiagonal()\<close> assigned to a dense matrix: square, \<open>v\<close> on the diagonal, zero elsewhere.\<close>

definition asDiagonal :: "'a::zero list \<Rightarrow> 'a matrix" where
  "asDiagonal v =
     \<lparr>nrows = length v, ncols = length v,
      coeffs = map (\<lambda>k. if k mod length v = k div length v then v ! (k mod length v) else 0)
                   [0..<length v * length v]\<rparr>"

text \<open>
  The coefficient-wise difference \<^verbatim>\<open>a - b\<close>. Eigen asserts that both operands have the
  same shape; at its one use below both are square of the same order.
\<close>

definition cwise_minus :: "'a::minus matrix \<Rightarrow> 'a matrix \<Rightarrow> 'a matrix" where
  "cwise_minus a b =
     \<lparr>nrows = nrows a, ncols = ncols a, coeffs = map2 (\<lambda>x y. x - y) (coeffs a) (coeffs b)\<rparr>"

text \<open>
  \<^verbatim>\<open>m.sum()\<close> adds all coefficients, each once, and every partial sum is rounded. The
  order and grouping of the additions are the substrate's: one coefficient after the
  other in storage order when it works on scalars, several partial sums side by side
  when it works on packets. A \<open>plan\<close> is such a grouping, a binary tree whose leaves are
  positions of the buffer; \<open>reduce\<close> carries it out. The plan the substrate uses for a
  buffer of each length is a parameter of the sum.
\<close>

datatype plan = Leaf nat | Node plan plan

fun leaves :: "plan \<Rightarrow> nat list" where
  "leaves (Leaf k) = [k]"
| "leaves (Node l r) = leaves l @ leaves r"

fun reduce :: "plan \<Rightarrow> 'a::plus list \<Rightarrow> 'a" where
  "reduce (Leaf k) xs = xs ! k"
| "reduce (Node l r) xs = reduce l xs + reduce r xs"

text \<open>A plan for a buffer of \<open>n\<close> coefficients uses each position below \<open>n\<close> exactly once.\<close>

definition valid_plan :: "plan \<Rightarrow> nat \<Rightarrow> bool" where
  "valid_plan p n = (distinct (leaves p) \<and> set (leaves p) = {..<n})"

text \<open>The plan of the scalar traversal: the coefficients one after the other in storage order.\<close>

fun left_comb :: "nat \<Rightarrow> plan" where
  "left_comb 0 = Leaf 0"
| "left_comb (Suc k) = Node (left_comb k) (Leaf (Suc k))"

definition storage_order :: "nat \<Rightarrow> plan" where
  "storage_order n = left_comb (n - 1)"

text \<open>The sum of an empty matrix is zero.\<close>

definition sum_coeffs :: "(nat \<Rightarrow> plan) \<Rightarrow> 'a::{zero, plus} matrix \<Rightarrow> 'a" where
  "sum_coeffs order m =
     (if coeffs m = [] then 0 else reduce (order (length (coeffs m))) (coeffs m))"

text \<open>\<^verbatim>\<open>isdiag\<close>, with the order of summation of the substrate as its first argument.\<close>

definition isdiag :: "(nat \<Rightarrow> plan) \<Rightarrow> float32 matrix \<Rightarrow> bool" where
  "isdiag order x =
     (if ncols x \<noteq> nrows x then False
      else
        let t = asDiagonal (diagonal x)
        in if ge_double (fabs (sum_coeffs order (cwise_minus t x))) double_0_00001 then False
           else True)"

text \<open>
  The entries of \<open>M - D\<close> in storage order, where \<open>D\<close> has the diagonal of \<open>M\<close> and zeros
  elsewhere: the residuals, as the specification names them.
\<close>

definition residuals :: "float32 matrix \<Rightarrow> float32 list" where
  "residuals M =
     map (\<lambda>k. let i = k mod nrows M; j = k div nrows M
               in coeff M i j - (if i = j then coeff M i i else 0))
         [0..<nrows M * ncols M]"

text \<open>
  The test as the specification words it, read in exact arithmetic: the matrix is square
  and the absolute value of the sum of the residuals is below \<open>1 / 100000\<close>. It is
  defined on matrices of finite floats, whose values \<open>exact\<close> returns.
\<close>

fun exact :: "float32 \<Rightarrow> rat" where
  "exact (Finite q) = q"
| "exact PInf = 0"
| "exact NInf = 0"
| "exact NaN = 0"

definition is_diagonal_exact :: "float32 matrix \<Rightarrow> bool" where
  "is_diagonal_exact M =
     (nrows M = ncols M \<and>
      \<bar>\<Sum>j < ncols M. \<Sum>i < nrows M.
           exact (coeff M i j) - (if i = j then exact (coeff M i i) else 0)\<bar> < 1 / 100000)"

section \<open>Block-diagonal assembly\<close>

text \<open>
  The dimensions are read into \<^verbatim>\<open>uint32_t\<close> locals and added there; the zero matrix of
  that shape receives the operands as blocks.
\<close>

definition block_diag :: "'a::zero matrix \<Rightarrow> 'a matrix \<Rightarrow> error + 'a matrix" where
  "block_diag m1 m2 =
     (let m1r = (of_nat (nrows m1) :: uint32);
          m1c = (of_nat (ncols m1) :: uint32);
          m2r = (of_nat (nrows m2) :: uint32);
          m2c = (of_nat (ncols m2) :: uint32);
          mf = Zero (unat (m1r + m2r)) (unat (m1c + m2c))
      in case set_block mf 0 0 (unat m1r) (unat m1c) m1 of
           Inl e \<Rightarrow> Inl e
         | Inr mf1 \<Rightarrow> set_block mf1 (unat m1r) (unat m1c) (unat m2r) (unat m2c) m2)"

text \<open>The overload with three operands.\<close>

definition block_diag3 :: "'a::zero matrix \<Rightarrow> 'a matrix \<Rightarrow> 'a matrix \<Rightarrow> error + 'a matrix" where
  "block_diag3 m1 m2 m3 =
     (let m1r = (of_nat (nrows m1) :: uint32);
          m1c = (of_nat (ncols m1) :: uint32);
          m2r = (of_nat (nrows m2) :: uint32);
          m2c = (of_nat (ncols m2) :: uint32);
          m3r = (of_nat (nrows m3) :: uint32);
          m3c = (of_nat (ncols m3) :: uint32);
          bdm = Zero (unat (m1r + m2r + m3r)) (unat (m1c + m2c + m3c))
      in case set_block bdm 0 0 (unat m1r) (unat m1c) m1 of
           Inl e \<Rightarrow> Inl e
         | Inr bdm1 \<Rightarrow>
             (case set_block bdm1 (unat m1r) (unat m1c) (unat m2r) (unat m2c) m2 of
                Inl e \<Rightarrow> Inl e
              | Inr bdm2 \<Rightarrow>
                  set_block bdm2 (unat (m1r + m2r)) (unat (m1c + m2c)) (unat m3r) (unat m3c) m3))"

section \<open>Kronecker product\<close>

text \<open>\<^verbatim>\<open>m(i, j)\<close> with the range assertion of the substrate.\<close>

definition coeff_at :: "'a matrix \<Rightarrow> nat \<Rightarrow> nat \<Rightarrow> error + 'a" where
  "coeff_at m i j =
     (if i < nrows m \<and> j < ncols m then Inr (coeff m i j) else Inl assertion_failure)"

text \<open>The product \<^verbatim>\<open>a * m\<close> of a scalar and a matrix.\<close>

definition scale :: "'a::times \<Rightarrow> 'a matrix \<Rightarrow> 'a matrix" where
  "scale a m = m\<lparr>coeffs := map (\<lambda>x. a * x) (coeffs m)\<rparr>"

text \<open>
  The loops of \<^verbatim>\<open>kron\<close>. The counters \<open>i\<close> and \<open>j\<close> are of type \<^verbatim>\<open>int\<close> (32 bits): they
  start at zero, are compared with the \<^verbatim>\<open>uint32_t\<close> bounds as unsigned values, and
  incrementing the largest \<^verbatim>\<open>int\<close>, \<open>2 ^ 31 - 1\<close>, is undefined. The offsets \<^verbatim>\<open>i*m2r\<close> and \<^verbatim>\<open>j*m2c\<close>
  are products in \<^verbatim>\<open>uint32_t\<close>. The inner loop is \<open>kron_cols\<close>, the outer \<open>kron_rows\<close>.
\<close>

function kron_cols ::
  "'a::times matrix \<Rightarrow> 'a matrix \<Rightarrow> uint32 \<Rightarrow> uint32 \<Rightarrow> uint32 \<Rightarrow> nat \<Rightarrow> nat \<Rightarrow> 'a matrix
     \<Rightarrow> error + 'a matrix" where
  "kron_cols m1 m2 m1c m2r m2c i j m3 =
     (if j < unat m1c
      then (case coeff_at m1 i j of
              Inl e \<Rightarrow> Inl e
            | Inr a \<Rightarrow>
                (case set_block m3 (unat (of_nat i * m2r)) (unat (of_nat j * m2c))
                        (unat m2r) (unat m2c) (scale a m2) of
                   Inl e \<Rightarrow> Inl e
                 | Inr m3' \<Rightarrow>
                     if j = 2 ^ 31 - 1 then Inl undefined_behaviour
                     else kron_cols m1 m2 m1c m2r m2c i (j + 1) m3'))
      else Inr m3)"
  by pat_completeness auto
termination
  by (relation "measure (\<lambda>(m1, m2, m1c, m2r, m2c, i, j, m3). unat m1c - j)") auto

declare kron_cols.simps [simp del]

function kron_rows ::
  "'a::times matrix \<Rightarrow> 'a matrix \<Rightarrow> uint32 \<Rightarrow> uint32 \<Rightarrow> uint32 \<Rightarrow> uint32 \<Rightarrow> nat \<Rightarrow> 'a matrix
     \<Rightarrow> error + 'a matrix" where
  "kron_rows m1 m2 m1r m1c m2r m2c i m3 =
     (if i < unat m1r
      then (case kron_cols m1 m2 m1c m2r m2c i 0 m3 of
              Inl e \<Rightarrow> Inl e
            | Inr m3' \<Rightarrow>
                if i = 2 ^ 31 - 1 then Inl undefined_behaviour
                else kron_rows m1 m2 m1r m1c m2r m2c (i + 1) m3')
      else Inr m3)"
  by pat_completeness auto
termination
  by (relation "measure (\<lambda>(m1, m2, m1r, m1c, m2r, m2c, i, m3). unat m1r - i)") auto

declare kron_rows.simps [simp del]

definition kron :: "(nat \<Rightarrow> 'a) \<Rightarrow> 'a::times matrix \<Rightarrow> 'a matrix \<Rightarrow> error + 'a matrix" where
  "kron junk m1 m2 =
     (let m1r = (of_nat (nrows m1) :: uint32);
          m1c = (of_nat (ncols m1) :: uint32);
          m2r = (of_nat (nrows m2) :: uint32);
          m2c = (of_nat (ncols m2) :: uint32);
          m3 = uninitialized junk (unat (m1r * m2r)) (unat (m1c * m2c))
      in kron_rows m1 m2 m1r m1c m2r m2c 0 m3)"

section \<open>Basic facts about the substrate\<close>

lemma empty_matrix_eq:
  "wf M \<Longrightarrow> wf E \<Longrightarrow> nrows M = nrows E \<Longrightarrow> ncols M = ncols E \<Longrightarrow> nrows M * ncols M = 0
     \<Longrightarrow> E = (M :: 'a matrix)"
  by (cases M; cases E) (auto simp: wf_def)

lemma u32_of_nat: "n < 2 ^ 32 \<Longrightarrow> unat (of_nat n :: uint32) = n"
  by (simp add: unat_of_nat)

lemma u32_add: "a + b < 2 ^ 32 \<Longrightarrow> unat (of_nat a + of_nat b :: uint32) = a + b"
  using u32_of_nat [of "a + b"] by simp

lemma u32_add3:
  "a + b + c < 2 ^ 32 \<Longrightarrow> unat (of_nat a + of_nat b + of_nat c :: uint32) = a + b + c"
  using u32_of_nat [of "a + b + c"] by simp

lemma u32_mult: "a * b < 2 ^ 32 \<Longrightarrow> unat (of_nat a * of_nat b :: uint32) = a * b"
  using u32_of_nat [of "a * b"] by simp

lemma index_mod: "i < r \<Longrightarrow> (j * r + i) mod r = (i::nat)"
  by simp

lemma index_div: "i < r \<Longrightarrow> (j * r + i) div r = (j::nat)"
  by simp

lemma index_less: "i < r \<Longrightarrow> j < c \<Longrightarrow> j * r + i < r * (c::nat)"
proof -
  assume a: "i < r" "j < c"
  then have "j * r + i < j * r + r" by simp
  also have "\<dots> = (j + 1) * r" by simp
  also have "\<dots> \<le> c * r" using a by (intro mult_le_mono1) simp
  finally show ?thesis by (simp add: mult.commute)
qed

lemma set_block_dims:
  "set_block dst r0 c0 h w src = Inr x \<Longrightarrow> nrows x = nrows dst \<and> ncols x = ncols dst"
  by (auto simp: set_block_def split: if_splits)

lemma set_block_wf: "set_block dst r0 c0 h w src = Inr x \<Longrightarrow> wf dst \<Longrightarrow> wf x"
  by (auto simp: set_block_def wf_def split: if_splits)

lemma set_block_coeff:
  assumes "set_block dst r0 c0 h w src = Inr x" and "wf dst" and "i < nrows dst" and "j < ncols dst"
  shows "coeff x i j =
           (if r0 \<le> i \<and> i < r0 + h \<and> c0 \<le> j \<and> j < c0 + w
            then coeff src (i - r0) (j - c0) else coeff dst i j)"
proof -
  have k: "j * nrows dst + i < length (coeffs dst)"
    using assms(2-4) by (simp add: wf_def index_less)
  from assms(1) have x: "x = dst\<lparr>coeffs :=
             map (\<lambda>k. let i = k mod nrows dst; j = k div nrows dst in
                       if r0 \<le> i \<and> i < r0 + h \<and> c0 \<le> j \<and> j < c0 + w
                       then coeff src (i - r0) (j - c0)
                       else coeffs dst ! k)
                 [0..<length (coeffs dst)]\<rparr>"
    by (simp add: set_block_def split: if_splits)
  show ?thesis
    using k assms(3) by (simp add: x coeff_def Let_def)
qed

lemma set_block_ok:
  "r0 + h \<le> nrows dst \<Longrightarrow> c0 + w \<le> ncols dst \<Longrightarrow> nrows src = h \<Longrightarrow> ncols src = w \<Longrightarrow>
     \<exists>x. set_block dst r0 c0 h w src = Inr x"
  by (simp add: set_block_def)

lemma wf_Zero: "wf (Zero r c)"
  by (simp add: wf_def Zero_def)

lemma coeff_Zero: "i < r \<Longrightarrow> j < c \<Longrightarrow> coeff (Zero r c) i j = 0"
  by (simp add: coeff_def Zero_def index_less)

lemma matrix_eqI:
  assumes "wf A" "wf B" "nrows A = nrows B" "ncols A = ncols B"
    and "\<And>i j. i < nrows A \<Longrightarrow> j < ncols A \<Longrightarrow> coeff A i j = coeff B i j"
  shows "A = (B :: 'a matrix)"
proof -
  have len: "length (coeffs A) = length (coeffs B)"
    using assms(1-4) by (simp add: wf_def)
  have "coeffs A ! k = coeffs B ! k" if "k < length (coeffs A)" for k
  proof -
    from that have k: "k < nrows A * ncols A" using assms(1) by (simp add: wf_def)
    then have r: "0 < nrows A" by (cases "nrows A") auto
    have "k mod nrows A < nrows A" using r by simp
    moreover have "k div nrows A < ncols A"
      using k by (simp add: less_mult_imp_div_less mult.commute)
    ultimately have "coeff A (k mod nrows A) (k div nrows A) = coeff B (k mod nrows A) (k div nrows A)"
      by (rule assms(5))
    then show ?thesis by (simp add: coeff_def assms(3) [symmetric])
  qed
  with len have "coeffs A = coeffs B" by (rule nth_equalityI)
  with assms(3,4) show ?thesis by (cases A; cases B) simp
qed


lemma set_block_Inl: "set_block dst r0 c0 h w src = Inl e \<Longrightarrow> e = assertion_failure"
  by (auto simp: set_block_def split: if_splits)

lemma comma_init_Inr:
  assumes "comma_init rm m1 = Inr s"
  shows "nrows (m_xpr s) = nrows rm \<and> ncols (m_xpr s) = ncols rm \<and> m_row s = 0 \<and>
         m_col s = ncols m1 \<and> m_currentBlockRows s = nrows m1"
proof -
  from assms obtain x where x: "set_block rm 0 0 (nrows m1) (ncols m1) m1 = Inr x"
    and s: "s = \<lparr>m_xpr = x, m_row = 0, m_col = ncols m1, m_currentBlockRows = nrows m1\<rparr>"
    by (auto simp: comma_init_def split: sum.splits)
  from set_block_dims [OF x] s show ?thesis by simp
qed

lemma comma_next_new_row:
  assumes "m_col s = ncols (m_xpr s) \<and> (ncols m2 \<noteq> 0 \<or> nrows m2 \<noteq> m_currentBlockRows s)"
  shows "comma_next s m2 =
     (if \<not> m_row s + m_currentBlockRows s + nrows m2 \<le> nrows (m_xpr s) then Inl assertion_failure
      else if \<not> ncols m2 \<le> ncols (m_xpr s) then Inl assertion_failure
      else (case set_block (m_xpr s) (m_row s + m_currentBlockRows s) 0 (nrows m2) (ncols m2) m2 of
              Inl e \<Rightarrow> Inl e
            | Inr x \<Rightarrow> Inr \<lparr>m_xpr = x, m_row = m_row s + m_currentBlockRows s,
                            m_col = ncols m2, m_currentBlockRows = nrows m2\<rparr>))"
  using assms by (cases s) (auto simp: comma_next_def Let_def split: sum.splits)

lemma comma_next_same_row:
  assumes "\<not> (m_col s = ncols (m_xpr s) \<and> (ncols m2 \<noteq> 0 \<or> nrows m2 \<noteq> m_currentBlockRows s))"
  shows "comma_next s m2 =
     (if \<not> m_col s + ncols m2 \<le> ncols (m_xpr s) then Inl assertion_failure
      else if m_currentBlockRows s \<noteq> nrows m2 then Inl assertion_failure
      else (case set_block (m_xpr s) (m_row s) (m_col s) (nrows m2) (ncols m2) m2 of
              Inl e \<Rightarrow> Inl e
            | Inr x \<Rightarrow> Inr \<lparr>m_xpr = x, m_row = m_row s, m_col = m_col s + ncols m2,
                            m_currentBlockRows = m_currentBlockRows s\<rparr>))"
  using assms by (cases s) (auto simp: comma_next_def Let_def split: sum.splits)

lemma comma_next_Inr:
  assumes "comma_next s m2 = Inr s'"
  shows "nrows (m_xpr s') = nrows (m_xpr s) \<and> ncols (m_xpr s') = ncols (m_xpr s) \<and>
         (if m_col s = ncols (m_xpr s) \<and> (ncols m2 \<noteq> 0 \<or> nrows m2 \<noteq> m_currentBlockRows s)
          then m_row s' = m_row s + m_currentBlockRows s \<and> m_col s' = ncols m2 \<and>
               m_currentBlockRows s' = nrows m2
          else m_row s' = m_row s \<and> m_col s' = m_col s + ncols m2 \<and>
               m_currentBlockRows s' = m_currentBlockRows s \<and> m_currentBlockRows s = nrows m2)"
proof (cases "m_col s = ncols (m_xpr s) \<and> (ncols m2 \<noteq> 0 \<or> nrows m2 \<noteq> m_currentBlockRows s)")
  case True
  from assms obtain x where
      x: "set_block (m_xpr s) (m_row s + m_currentBlockRows s) 0 (nrows m2) (ncols m2) m2 = Inr x"
      and s': "s' = \<lparr>m_xpr = x, m_row = m_row s + m_currentBlockRows s,
                            m_col = ncols m2, m_currentBlockRows = nrows m2\<rparr>"
    unfolding comma_next_new_row [OF True] by (auto split: if_splits sum.splits)
  from set_block_dims [OF x] s' show ?thesis unfolding if_P [OF True] by simp
next
  case False
  from assms obtain x where
      x: "set_block (m_xpr s) (m_row s) (m_col s) (nrows m2) (ncols m2) m2 = Inr x"
      and s': "s' = \<lparr>m_xpr = x, m_row = m_row s, m_col = m_col s + ncols m2,
                            m_currentBlockRows = m_currentBlockRows s\<rparr>"
      and c: "m_currentBlockRows s = nrows m2"
    unfolding comma_next_same_row [OF False] by (auto split: if_splits sum.splits)
  from set_block_dims [OF x] s' c show ?thesis unfolding if_not_P [OF False] by simp
qed

lemma comma_finished_Inr:
  "comma_finished s = Inr x \<Longrightarrow>
     (m_row s + m_currentBlockRows s = nrows (m_xpr s) \<or> ncols (m_xpr s) = 0) \<and>
     m_col s = ncols (m_xpr s)"
  by (simp add: comma_finished_def split: if_splits)

lemma comma_next_Inl: "comma_next s m2 = Inl e \<Longrightarrow> e = assertion_failure"
  by (cases "m_col s = ncols (m_xpr s) \<and> (ncols m2 \<noteq> 0 \<or> nrows m2 \<noteq> m_currentBlockRows s)")
     (auto simp: comma_next_new_row comma_next_same_row split: sum.splits if_splits
           dest: set_block_Inl)

lemma comma2_Inl: "comma2 rm m1 m2 = Inl e \<Longrightarrow> e = assertion_failure"
  by (auto simp: comma2_def comma_init_def comma_finished_def
           split: sum.splits if_splits dest: set_block_Inl comma_next_Inl)

lemma comma2_Inr:
  assumes "comma2 rm m1 m2 = Inr x"
  shows "(ncols m1 = ncols rm \<and> ncols m2 = ncols rm \<and>
            (ncols rm = 0 \<or> nrows m1 + nrows m2 = nrows rm)) \<or>
         (ncols m1 + ncols m2 = ncols rm \<and> nrows m1 = nrows m2 \<and>
            (nrows m1 = nrows rm \<or> ncols rm = 0))"
proof -
  from assms obtain s s' where s: "comma_init rm m1 = Inr s"
      and s': "comma_next s m2 = Inr s'" and f: "comma_finished s' = Inr x"
    by (auto simp: comma2_def split: sum.splits)
  note i = comma_init_Inr [OF s] and n = comma_next_Inr [OF s'] and e = comma_finished_Inr [OF f]
  show ?thesis
  proof (cases "m_col s = ncols (m_xpr s) \<and> (ncols m2 \<noteq> 0 \<or> nrows m2 \<noteq> m_currentBlockRows s)")
    case True
    with i n e show ?thesis by auto
  next
    case False
    with i n e show ?thesis by auto
  qed
qed

section \<open>Concatenation with an empty operand\<close>

text \<open>
  Claim C9. When \<open>A\<close> has no rows \<open>vstack\<close> returns \<open>B\<close> whatever the column counts are,
  also when \<open>A\<close> has columns and their number differs from that of \<open>B\<close>; when \<open>A\<close> has
  rows and \<open>B\<close> has none it returns \<open>A\<close>. \<open>hstack\<close> does the same on columns. No
  hypothesis relates the cross-axis counts of the two operands.
\<close>

theorem stack_empty_operand_unchecked:
  "(nrows A = 0 \<longrightarrow> vstack junk A B = Inr B) \<and>
   (nrows A \<noteq> 0 \<and> nrows B = 0 \<longrightarrow> vstack junk A B = Inr A) \<and>
   (ncols A = 0 \<longrightarrow> hstack junk A B = Inr B) \<and>
   (ncols A \<noteq> 0 \<and> ncols B = 0 \<longrightarrow> hstack junk A B = Inr A)"
  by (simp add: vstack_def hstack_def)

theorem stack_empty_operand_unchecked_witness:
  "vstack of_nat \<lparr>nrows = 0, ncols = 3, coeffs = []\<rparr>
                 \<lparr>nrows = 1, ncols = 2, coeffs = [5, 6 :: int]\<rparr>
     = Inr \<lparr>nrows = 1, ncols = 2, coeffs = [5, 6]\<rparr> \<and>
   vstack of_nat \<lparr>nrows = 1, ncols = 2, coeffs = [5, 6 :: int]\<rparr>
                 \<lparr>nrows = 0, ncols = 3, coeffs = []\<rparr>
     = Inr \<lparr>nrows = 1, ncols = 2, coeffs = [5, 6]\<rparr> \<and>
   hstack of_nat \<lparr>nrows = 3, ncols = 0, coeffs = []\<rparr>
                 \<lparr>nrows = 2, ncols = 1, coeffs = [5, 6 :: int]\<rparr>
     = Inr \<lparr>nrows = 2, ncols = 1, coeffs = [5, 6]\<rparr> \<and>
   hstack of_nat \<lparr>nrows = 2, ncols = 1, coeffs = [5, 6 :: int]\<rparr>
                 \<lparr>nrows = 3, ncols = 0, coeffs = []\<rparr>
     = Inr \<lparr>nrows = 2, ncols = 1, coeffs = [5, 6]\<rparr>"
  using
    stack_empty_operand_unchecked [of "\<lparr>nrows = 0, ncols = 3, coeffs = []\<rparr>" of_nat
      "\<lparr>nrows = 1, ncols = 2, coeffs = [5, 6 :: int]\<rparr>"]
    stack_empty_operand_unchecked [of "\<lparr>nrows = 1, ncols = 2, coeffs = [5, 6 :: int]\<rparr>" of_nat
      "\<lparr>nrows = 0, ncols = 3, coeffs = []\<rparr>"]
    stack_empty_operand_unchecked [of "\<lparr>nrows = 3, ncols = 0, coeffs = []\<rparr>" of_nat
      "\<lparr>nrows = 2, ncols = 1, coeffs = [5, 6 :: int]\<rparr>"]
    stack_empty_operand_unchecked [of "\<lparr>nrows = 2, ncols = 1, coeffs = [5, 6 :: int]\<rparr>" of_nat
      "\<lparr>nrows = 3, ncols = 0, coeffs = []\<rparr>"]
  by simp

text \<open>
  Claim C6. For a matrix \<open>M\<close> and a matrix \<open>E\<close> with no rows and as many columns as \<open>M\<close>,
  \<open>vstack(E, M) = M\<close> and \<open>vstack(M, E) = M\<close>; for a matrix \<open>F\<close> with no columns and as
  many rows as \<open>M\<close>, \<open>hstack(F, M) = M\<close> and \<open>hstack(M, F) = M\<close>. (When \<open>M\<close> is empty
  along the axis too, the function returns the second operand, which then equals \<open>M\<close>.)
\<close>

theorem empty_operand_absorption:
  "(wf M \<and> wf E \<and> nrows E = 0 \<and> ncols E = ncols M \<longrightarrow>
      vstack junk E M = Inr M \<and> vstack junk M E = Inr M) \<and>
   (wf M \<and> wf F \<and> ncols F = 0 \<and> nrows F = nrows M \<longrightarrow>
      hstack junk F M = Inr M \<and> hstack junk M F = Inr M)"
  by (auto simp: vstack_def hstack_def intro: empty_matrix_eq)

theorem empty_operand_absorption_witness:
  "vstack of_nat \<lparr>nrows = 0, ncols = 2, coeffs = []\<rparr>
                 \<lparr>nrows = 1, ncols = 2, coeffs = [5, 6 :: int]\<rparr>
     = Inr \<lparr>nrows = 1, ncols = 2, coeffs = [5, 6]\<rparr> \<and>
   vstack of_nat \<lparr>nrows = 1, ncols = 2, coeffs = [5, 6 :: int]\<rparr>
                 \<lparr>nrows = 0, ncols = 2, coeffs = []\<rparr>
     = Inr \<lparr>nrows = 1, ncols = 2, coeffs = [5, 6]\<rparr> \<and>
   hstack of_nat \<lparr>nrows = 2, ncols = 0, coeffs = []\<rparr>
                 \<lparr>nrows = 2, ncols = 1, coeffs = [1, 2 :: int]\<rparr>
     = Inr \<lparr>nrows = 2, ncols = 1, coeffs = [1, 2]\<rparr> \<and>
   hstack of_nat \<lparr>nrows = 2, ncols = 1, coeffs = [1, 2 :: int]\<rparr>
                 \<lparr>nrows = 2, ncols = 0, coeffs = []\<rparr>
     = Inr \<lparr>nrows = 2, ncols = 1, coeffs = [1, 2]\<rparr>"
  using
    empty_operand_absorption [of "\<lparr>nrows = 1, ncols = 2, coeffs = [5, 6 :: int]\<rparr>"
      "\<lparr>nrows = 0, ncols = 2, coeffs = []\<rparr>" of_nat "\<lparr>nrows = 2, ncols = 0, coeffs = []\<rparr>"]
    empty_operand_absorption [of "\<lparr>nrows = 2, ncols = 1, coeffs = [1, 2 :: int]\<rparr>"
      "\<lparr>nrows = 0, ncols = 1, coeffs = []\<rparr>" of_nat "\<lparr>nrows = 2, ncols = 0, coeffs = []\<rparr>"]
  by (simp add: wf_def)

section \<open>The diagonal test on the empty matrix\<close>

text \<open>
  Claim C10. \<open>isdiag\<close> of the matrix with no rows and no columns is true, whatever the
  order of summation: the matrix is square, the sum of the residuals is the empty sum,
  which is zero, and zero is below \<^verbatim>\<open>0.00001\<close>.
\<close>

theorem isdiag_empty_matrix: "isdiag order \<lparr>nrows = 0, ncols = 0, coeffs = []\<rparr>"
  by (simp add: isdiag_def diagonal_def asDiagonal_def cwise_minus_def sum_coeffs_def
        zero_float32_def double_0_00001_def)

section \<open>Reshape\<close>

text \<open>
  Claim C3 says that \<open>reshape\<close> fails with \<open>shape_mismatch\<close> whenever \<open>r * c\<close> differs from
  the number of coefficients of \<open>M\<close>. The header has no such check and no error channel.
  Claim C3, amended: for every matrix \<open>M\<close> and every \<open>(r, c)\<close> with
  \<open>r * c \<noteq> rows(M) * cols(M)\<close>, \<open>reshape\<close> does not fail with \<open>shape_mismatch\<close>; when
  \<open>r * c\<close> is smaller it returns the \<open>r\<close> by \<open>c\<close> matrix made of the first \<open>r * c\<close>
  coefficients of \<open>M\<close> in storage order, and when \<open>r * c\<close> is larger it reads past the
  buffer of \<open>M\<close>, which is undefined behaviour and not an error the caller can handle.
\<close>

theorem reshape_no_shape_check:
  "wf M \<Longrightarrow> unat r * unat c \<noteq> nrows M * ncols M \<Longrightarrow>
     reshape M r c \<noteq> Inl shape_mismatch \<and>
     (unat r * unat c < nrows M * ncols M \<longrightarrow>
        reshape M r c = Inr \<lparr>nrows = unat r, ncols = unat c,
                              coeffs = take (unat r * unat c) (coeffs M)\<rparr>) \<and>
     (nrows M * ncols M < unat r * unat c \<longrightarrow> reshape M r c = Inl undefined_behaviour)"
  by (auto simp: reshape_def wf_def)

theorem reshape_no_shape_check_witness:
  "wf \<lparr>nrows = 2, ncols = 2, coeffs = [1, 3, 2, 4 :: int]\<rparr> \<and>
   unat (1 :: uint32) * unat (2 :: uint32) \<noteq> 2 * 2 \<and>
   reshape \<lparr>nrows = 2, ncols = 2, coeffs = [1, 3, 2, 4 :: int]\<rparr> 1 2 \<noteq> Inl shape_mismatch \<and>
   reshape \<lparr>nrows = 2, ncols = 2, coeffs = [1, 3, 2, 4 :: int]\<rparr> 1 2
     = Inr \<lparr>nrows = 1, ncols = 2, coeffs = [1, 3]\<rparr>"
  using reshape_no_shape_check [of "\<lparr>nrows = 2, ncols = 2, coeffs = [1, 3, 2, 4 :: int]\<rparr>" 1 2]
  by (simp add: wf_def)

text \<open>
  The counterexample to claim C3 as stated: the 2 by 2 matrix with rows \<open>(1, 2)\<close> and
  \<open>(3, 4)\<close>, reshaped to 1 by 2, is returned as the row \<open>(1, 3)\<close>.
\<close>

theorem reshape_mismatch_returns:
  "wf \<lparr>nrows = 2, ncols = 2, coeffs = [1, 3, 2, 4 :: int]\<rparr> \<and>
   unat (1 :: uint32) * unat (2 :: uint32) \<noteq> 2 * 2 \<and>
   reshape \<lparr>nrows = 2, ncols = 2, coeffs = [1, 3, 2, 4 :: int]\<rparr> 1 2 \<noteq> Inl shape_mismatch"
  by (simp add: reshape_def wf_def)

text \<open>
  Claim C7 says that reshaping to \<open>r\<close> by \<open>c\<close> and back gives \<open>M\<close> for every matrix. The
  parameters of \<open>reshape\<close> are \<^verbatim>\<open>uint32_t\<close>, so \<open>rows(M)\<close> and \<open>cols(M)\<close> are truncated
  when they are passed back.
  Claim C7, amended: for every matrix \<open>M\<close> whose dimensions are below \<open>2 ^ 32\<close> and every
  \<open>(r, c)\<close> with \<open>r * c = rows(M) * cols(M)\<close>,
  \<open>reshape(reshape(M, r, c), rows(M), cols(M)) = M\<close>.
\<close>

theorem reshape_round_trip:
  "wf M \<Longrightarrow> nrows M < 2 ^ 32 \<Longrightarrow> ncols M < 2 ^ 32 \<Longrightarrow> unat r * unat c = nrows M * ncols M \<Longrightarrow>
     (case reshape M r c of
        Inl e \<Rightarrow> Inl e
      | Inr y \<Rightarrow> reshape y (of_nat (nrows M)) (of_nat (ncols M))) = Inr M"
  by (cases M) (auto simp: reshape_def wf_def unat_of_nat)

theorem reshape_round_trip_witness:
  "wf \<lparr>nrows = 2, ncols = 2, coeffs = [1, 3, 2, 4 :: int]\<rparr> \<and>
   unat (1 :: uint32) * unat (4 :: uint32) = 2 * 2 \<and>
   (case reshape \<lparr>nrows = 2, ncols = 2, coeffs = [1, 3, 2, 4 :: int]\<rparr> 1 4 of
      Inl e \<Rightarrow> Inl e
    | Inr y \<Rightarrow> reshape y (of_nat (nrows \<lparr>nrows = 2, ncols = 2, coeffs = [1, 3, 2, 4 :: int]\<rparr>))
                         (of_nat (ncols \<lparr>nrows = 2, ncols = 2, coeffs = [1, 3, 2, 4 :: int]\<rparr>)))
     = Inr \<lparr>nrows = 2, ncols = 2, coeffs = [1, 3, 2, 4]\<rparr>"
  using reshape_round_trip [of "\<lparr>nrows = 2, ncols = 2, coeffs = [1, 3, 2, 4 :: int]\<rparr>" 1 4]
  by (simp add: wf_def)

text \<open>
  The counterexample to claim C7 as stated: a matrix with \<open>2 ^ 32\<close> rows and no columns
  (it has no coefficients). Reshaped to 0 by 0 and then to \<open>rows(M)\<close> by \<open>cols(M)\<close>, it
  comes back with no rows, since \<open>2 ^ 32\<close> is truncated to \<open>0\<close>.
\<close>

theorem reshape_round_trip_truncates:
  "wf \<lparr>nrows = 4294967296, ncols = 0, coeffs = [] :: int list\<rparr> \<and>
   unat (0 :: uint32) * unat (0 :: uint32) = 4294967296 * 0 \<and>
   reshape \<lparr>nrows = 4294967296, ncols = 0, coeffs = [] :: int list\<rparr> 0 0
      = Inr \<lparr>nrows = 0, ncols = 0, coeffs = []\<rparr> \<and>
   reshape \<lparr>nrows = 0, ncols = 0, coeffs = [] :: int list\<rparr> (of_nat 4294967296) (of_nat 0)
      = Inr \<lparr>nrows = 0, ncols = 0, coeffs = []\<rparr> \<and>
   \<lparr>nrows = 0, ncols = 0, coeffs = [] :: int list\<rparr>
      \<noteq> \<lparr>nrows = 4294967296, ncols = 0, coeffs = []\<rparr>"
  by (simp add: reshape_def wf_def)

section \<open>Concatenation of operands that do not fit\<close>

text \<open>
  Claim C4 says that \<open>vstack\<close> of two operands with rows and different column counts,
  and \<open>hstack\<close> of two operands with columns and different row counts, fail with
  \<open>shape_mismatch\<close>. The header compares no dimensions and returns no error. The
  operation does fail, inside the comma initializer of the substrate, whose assertion
  aborts the process: the caller receives no error it could handle.
  Claim C4, amended: for every pair of matrices \<open>A\<close> and \<open>B\<close> with \<open>rows(A) > 0\<close>,
  \<open>rows(B) > 0\<close> and \<open>cols(A) \<noteq> cols(B)\<close>, \<open>vstack(A, B)\<close> ends in an assertion failure
  of the substrate's comma initializer, with the assertions of the substrate enabled as
  they are by default (and in undefined behaviour when the sum of the row counts
  overflows \<^verbatim>\<open>Eigen::Index\<close>); dually, for every pair with \<open>cols(A) > 0\<close>, \<open>cols(B) > 0\<close>
  and \<open>rows(A) \<noteq> rows(B)\<close>, so does \<open>hstack(A, B)\<close>. Neither returns a \<open>shape_mismatch\<close>
  error.
\<close>

theorem stack_mismatch_asserts:
  "(0 < nrows A \<and> 0 < nrows B \<and> ncols A \<noteq> ncols B \<longrightarrow>
      vstack junk A B =
        (if nrows A + nrows B < 2 ^ 63 then Inl assertion_failure else Inl undefined_behaviour)) \<and>
   (0 < ncols A \<and> 0 < ncols B \<and> nrows A \<noteq> nrows B \<longrightarrow>
      hstack junk A B =
        (if ncols A + ncols B < 2 ^ 63 then Inl assertion_failure else Inl undefined_behaviour))"
proof (intro conjI impI)
  assume h: "0 < nrows A \<and> 0 < nrows B \<and> ncols A \<noteq> ncols B"
  define rm where "rm = uninitialized junk (nrows A + nrows B)
      (unat (if (of_nat (ncols A) :: uint32) = 0 then of_nat (ncols B) else of_nat (ncols A) :: uint32))"
  have d: "nrows rm = nrows A + nrows B" by (simp add: rm_def uninitialized_def)
  have "comma2 rm A B = Inl assertion_failure"
  proof (cases "comma2 rm A B")
    case (Inl e)
    then show ?thesis using comma2_Inl [OF Inl] by simp
  next
    case (Inr x)
    from comma2_Inr [OF Inr] h d have False by auto
    then show ?thesis ..
  qed
  then show "vstack junk A B =
      (if nrows A + nrows B < 2 ^ 63 then Inl assertion_failure else Inl undefined_behaviour)"
    using h by (simp add: vstack_def Let_def rm_def not_le)
next
  assume h: "0 < ncols A \<and> 0 < ncols B \<and> nrows A \<noteq> nrows B"
  define rm where "rm = uninitialized junk
      (unat (if (of_nat (nrows A) :: uint32) = 0 then of_nat (nrows B) else of_nat (nrows A) :: uint32))
      (ncols A + ncols B)"
  have d: "ncols rm = ncols A + ncols B" by (simp add: rm_def uninitialized_def)
  have "comma2 rm A B = Inl assertion_failure"
  proof (cases "comma2 rm A B")
    case (Inl e)
    then show ?thesis using comma2_Inl [OF Inl] by simp
  next
    case (Inr x)
    from comma2_Inr [OF Inr] h d have False by auto
    then show ?thesis ..
  qed
  then show "hstack junk A B =
      (if ncols A + ncols B < 2 ^ 63 then Inl assertion_failure else Inl undefined_behaviour)"
    using h by (simp add: hstack_def Let_def rm_def not_le)
qed

theorem stack_mismatch_asserts_witness:
  "vstack of_nat \<lparr>nrows = 1, ncols = 1, coeffs = [1 :: int]\<rparr>
                 \<lparr>nrows = 1, ncols = 2, coeffs = [5, 6]\<rparr> = Inl assertion_failure \<and>
   hstack of_nat \<lparr>nrows = 1, ncols = 1, coeffs = [1 :: int]\<rparr>
                 \<lparr>nrows = 2, ncols = 1, coeffs = [5, 6]\<rparr> = Inl assertion_failure"
  using
    stack_mismatch_asserts [of "\<lparr>nrows = 1, ncols = 1, coeffs = [1 :: int]\<rparr>"
      "\<lparr>nrows = 1, ncols = 2, coeffs = [5, 6]\<rparr>" of_nat]
    stack_mismatch_asserts [of "\<lparr>nrows = 1, ncols = 1, coeffs = [1 :: int]\<rparr>"
      "\<lparr>nrows = 2, ncols = 1, coeffs = [5, 6]\<rparr>" of_nat]
  by simp

text \<open>
  The counterexample to claim C4 as stated: stacking the 1 by 1 matrix \<open>(1)\<close> on the
  1 by 2 matrix \<open>(5, 6)\<close> does not return \<open>shape_mismatch\<close>.
\<close>

theorem vstack_mismatch_no_error_value:
  "(0 :: nat) < 1 \<and> (1 :: nat) \<noteq> 2 \<and>
   vstack of_nat \<lparr>nrows = 1, ncols = 1, coeffs = [1 :: int]\<rparr>
                 \<lparr>nrows = 1, ncols = 2, coeffs = [5, 6]\<rparr> \<noteq> Inl shape_mismatch \<and>
   vstack of_nat \<lparr>nrows = 1, ncols = 1, coeffs = [1 :: int]\<rparr>
                 \<lparr>nrows = 1, ncols = 2, coeffs = [5, 6]\<rparr> = Inl assertion_failure"
  by (simp add: vstack_def uninitialized_def comma2_def comma_init_def comma_next_def
        comma_finished_def set_block_def Let_def)

section \<open>Block-diagonal assembly\<close>

lemma block_diag2_bounded:
  assumes b: "nrows M1 + nrows M2 < 2 ^ 32" "ncols M1 + ncols M2 < 2 ^ 32"
  shows "\<exists>K. block_diag M1 M2 = Inr K \<and> wf K \<and>
           nrows K = nrows M1 + nrows M2 \<and> ncols K = ncols M1 + ncols M2 \<and>
           (\<forall>x < nrows K. \<forall>y < ncols K.
              coeff K x y =
                (if x < nrows M1 \<and> y < ncols M1 then coeff M1 x y
                 else if nrows M1 \<le> x \<and> ncols M1 \<le> y
                 then coeff M2 (x - nrows M1) (y - ncols M1)
                 else 0))"
proof -
  let ?Z = "Zero (nrows M1 + nrows M2) (ncols M1 + ncols M2) :: 'a matrix"
  from b have u: "unat (of_nat (nrows M1) :: uint32) = nrows M1"
      "unat (of_nat (ncols M1) :: uint32) = ncols M1"
      "unat (of_nat (nrows M2) :: uint32) = nrows M2"
      "unat (of_nat (ncols M2) :: uint32) = ncols M2"
      "unat (of_nat (nrows M1) + of_nat (nrows M2) :: uint32) = nrows M1 + nrows M2"
      "unat (of_nat (ncols M1) + of_nat (ncols M2) :: uint32) = ncols M1 + ncols M2"
    by (simp_all add: u32_of_nat u32_add)
  obtain K1 where K1: "set_block ?Z 0 0 (nrows M1) (ncols M1) M1 = Inr K1"
    using set_block_ok [of 0 "nrows M1" ?Z 0 "ncols M1" M1] by (auto simp: Zero_def)
  have d1: "nrows K1 = nrows M1 + nrows M2" "ncols K1 = ncols M1 + ncols M2"
    using set_block_dims [OF K1] by (simp_all add: Zero_def)
  have w1: "wf K1" using set_block_wf [OF K1 wf_Zero] .
  obtain K where K: "set_block K1 (nrows M1) (ncols M1) (nrows M2) (ncols M2) M2 = Inr K"
    using set_block_ok [of "nrows M1" "nrows M2" K1 "ncols M1" "ncols M2" M2] d1 by auto
  have d: "nrows K = nrows M1 + nrows M2" "ncols K = ncols M1 + ncols M2"
    using set_block_dims [OF K] d1 by simp_all
  have bd: "block_diag M1 M2 = Inr K"
    by (simp add: block_diag_def Let_def u K1 K del: of_nat_add)
  have "coeff K x y =
                (if x < nrows M1 \<and> y < ncols M1 then coeff M1 x y
                 else if nrows M1 \<le> x \<and> ncols M1 \<le> y
                 then coeff M2 (x - nrows M1) (y - ncols M1)
                 else 0)" if "x < nrows K" "y < ncols K" for x y
  proof -
    have xy: "x < nrows M1 + nrows M2" "y < ncols M1 + ncols M2" using that d by simp_all
    have c1: "coeff K1 x y = (if x < nrows M1 \<and> y < ncols M1 then coeff M1 x y else 0)"
      using set_block_coeff [OF K1 wf_Zero, of x y] xy by (simp add: Zero_def coeff_Zero [unfolded Zero_def])
    show ?thesis
      using set_block_coeff [OF K w1, of x y] xy d1 c1 by auto
  qed
  moreover have "wf K" using set_block_wf [OF K w1] .
  ultimately show ?thesis using bd d by simp
qed

lemma block_diag3_bounded:
  assumes b: "nrows M1 + nrows M2 + nrows M3 < 2 ^ 32" "ncols M1 + ncols M2 + ncols M3 < 2 ^ 32"
  shows "\<exists>K. block_diag3 M1 M2 M3 = Inr K \<and> wf K \<and>
           nrows K = nrows M1 + nrows M2 + nrows M3 \<and>
           ncols K = ncols M1 + ncols M2 + ncols M3 \<and>
           (\<forall>x < nrows K. \<forall>y < ncols K.
              coeff K x y =
                (if x < nrows M1 \<and> y < ncols M1 then coeff M1 x y
                 else if nrows M1 \<le> x \<and> x < nrows M1 + nrows M2 \<and>
                         ncols M1 \<le> y \<and> y < ncols M1 + ncols M2
                 then coeff M2 (x - nrows M1) (y - ncols M1)
                 else if nrows M1 + nrows M2 \<le> x \<and> ncols M1 + ncols M2 \<le> y
                 then coeff M3 (x - (nrows M1 + nrows M2)) (y - (ncols M1 + ncols M2))
                 else 0))"
proof -
  let ?R = "nrows M1 + nrows M2 + nrows M3" and ?C = "ncols M1 + ncols M2 + ncols M3"
  let ?Z = "Zero ?R ?C :: 'a matrix"
  from b have u: "unat (of_nat (nrows M1) :: uint32) = nrows M1"
      "unat (of_nat (ncols M1) :: uint32) = ncols M1"
      "unat (of_nat (nrows M2) :: uint32) = nrows M2"
      "unat (of_nat (ncols M2) :: uint32) = ncols M2"
      "unat (of_nat (nrows M3) :: uint32) = nrows M3"
      "unat (of_nat (ncols M3) :: uint32) = ncols M3"
      "unat (of_nat (nrows M1) + of_nat (nrows M2) :: uint32) = nrows M1 + nrows M2"
      "unat (of_nat (ncols M1) + of_nat (ncols M2) :: uint32) = ncols M1 + ncols M2"
      "unat (of_nat (nrows M1) + of_nat (nrows M2) + of_nat (nrows M3) :: uint32) = ?R"
      "unat (of_nat (ncols M1) + of_nat (ncols M2) + of_nat (ncols M3) :: uint32) = ?C"
    by (simp_all add: u32_of_nat u32_add u32_add3)
  obtain K1 where K1: "set_block ?Z 0 0 (nrows M1) (ncols M1) M1 = Inr K1"
    using set_block_ok [of 0 "nrows M1" ?Z 0 "ncols M1" M1] by (auto simp: Zero_def)
  have d1: "nrows K1 = ?R" "ncols K1 = ?C"
    using set_block_dims [OF K1] by (simp_all add: Zero_def)
  have w1: "wf K1" using set_block_wf [OF K1 wf_Zero] .
  obtain K2 where K2: "set_block K1 (nrows M1) (ncols M1) (nrows M2) (ncols M2) M2 = Inr K2"
    using set_block_ok [of "nrows M1" "nrows M2" K1 "ncols M1" "ncols M2" M2] d1 by auto
  have d2: "nrows K2 = ?R" "ncols K2 = ?C"
    using set_block_dims [OF K2] d1 by simp_all
  have w2: "wf K2" using set_block_wf [OF K2 w1] .
  obtain K where K: "set_block K2 (nrows M1 + nrows M2) (ncols M1 + ncols M2)
                        (nrows M3) (ncols M3) M3 = Inr K"
    using set_block_ok [of "nrows M1 + nrows M2" "nrows M3" K2 "ncols M1 + ncols M2" "ncols M3" M3]
      d2 by auto
  have d: "nrows K = ?R" "ncols K = ?C"
    using set_block_dims [OF K] d2 by simp_all
  have bd: "block_diag3 M1 M2 M3 = Inr K"
    by (simp add: block_diag3_def Let_def u K1 K2 K del: of_nat_add)
  have "coeff K x y =
                (if x < nrows M1 \<and> y < ncols M1 then coeff M1 x y
                 else if nrows M1 \<le> x \<and> x < nrows M1 + nrows M2 \<and>
                         ncols M1 \<le> y \<and> y < ncols M1 + ncols M2
                 then coeff M2 (x - nrows M1) (y - ncols M1)
                 else if nrows M1 + nrows M2 \<le> x \<and> ncols M1 + ncols M2 \<le> y
                 then coeff M3 (x - (nrows M1 + nrows M2)) (y - (ncols M1 + ncols M2))
                 else 0)" if "x < nrows K" "y < ncols K" for x y
  proof -
    have xy: "x < ?R" "y < ?C" using that d by simp_all
    have c1: "coeff K1 x y = (if x < nrows M1 \<and> y < ncols M1 then coeff M1 x y else 0)"
      using set_block_coeff [OF K1 wf_Zero, of x y] xy
      by (simp add: Zero_def coeff_Zero [unfolded Zero_def])
    have c2: "coeff K2 x y =
        (if nrows M1 \<le> x \<and> x < nrows M1 + nrows M2 \<and> ncols M1 \<le> y \<and> y < ncols M1 + ncols M2
         then coeff M2 (x - nrows M1) (y - ncols M1) else coeff K1 x y)"
      using set_block_coeff [OF K2 w1, of x y] xy d1 by simp
    have c3: "coeff K x y =
        (if nrows M1 + nrows M2 \<le> x \<and> ncols M1 + ncols M2 \<le> y
         then coeff M3 (x - (nrows M1 + nrows M2)) (y - (ncols M1 + ncols M2)) else coeff K2 x y)"
      using set_block_coeff [OF K w2, of x y] xy d2 by auto
    show ?thesis
      unfolding c3 c2 c1 by auto
  qed
  moreover have "wf K" using set_block_wf [OF K w2] .
  ultimately show ?thesis using bd d by simp
qed

text \<open>
  Claim C5 says that \<open>block_diag\<close> returns the block-diagonal matrix for every two or
  three operands and never fails. The sums of the dimensions are computed in
  \<^verbatim>\<open>uint32_t\<close> and wrap.
  Claim C5, amended: for two or three matrices whose row counts sum to less than
  \<open>2 ^ 32\<close> and whose column counts sum to less than \<open>2 ^ 32\<close>, \<open>block_diag\<close> does not
  fail and returns a matrix of shape \<open>(\<Sum> rows) \<times> (\<Sum> cols)\<close> in which each operand
  occupies the block at the offset given by the rows and columns of the operands before
  it, and every entry outside those blocks is \<open>0\<close>; operands with no rows or no columns
  are included.
\<close>

theorem block_diag_placement:
  "(nrows M1 + nrows M2 < 2 ^ 32 \<and> ncols M1 + ncols M2 < 2 ^ 32 \<longrightarrow>
      (\<exists>K. block_diag M1 M2 = Inr K \<and> wf K \<and>
           nrows K = nrows M1 + nrows M2 \<and> ncols K = ncols M1 + ncols M2 \<and>
           (\<forall>x < nrows K. \<forall>y < ncols K.
              coeff K x y =
                (if x < nrows M1 \<and> y < ncols M1 then coeff M1 x y
                 else if nrows M1 \<le> x \<and> ncols M1 \<le> y
                 then coeff M2 (x - nrows M1) (y - ncols M1)
                 else 0)))) \<and>
   (nrows M1 + nrows M2 + nrows M3 < 2 ^ 32 \<and> ncols M1 + ncols M2 + ncols M3 < 2 ^ 32 \<longrightarrow>
      (\<exists>K. block_diag3 M1 M2 M3 = Inr K \<and> wf K \<and>
           nrows K = nrows M1 + nrows M2 + nrows M3 \<and>
           ncols K = ncols M1 + ncols M2 + ncols M3 \<and>
           (\<forall>x < nrows K. \<forall>y < ncols K.
              coeff K x y =
                (if x < nrows M1 \<and> y < ncols M1 then coeff M1 x y
                 else if nrows M1 \<le> x \<and> x < nrows M1 + nrows M2 \<and>
                         ncols M1 \<le> y \<and> y < ncols M1 + ncols M2
                 then coeff M2 (x - nrows M1) (y - ncols M1)
                 else if nrows M1 + nrows M2 \<le> x \<and> ncols M1 + ncols M2 \<le> y
                 then coeff M3 (x - (nrows M1 + nrows M2)) (y - (ncols M1 + ncols M2))
                 else 0))))"
proof (intro conjI impI)
  assume "nrows M1 + nrows M2 < 2 ^ 32 \<and> ncols M1 + ncols M2 < 2 ^ 32"
  then show "\<exists>K. block_diag M1 M2 = Inr K \<and> wf K \<and>
           nrows K = nrows M1 + nrows M2 \<and> ncols K = ncols M1 + ncols M2 \<and>
           (\<forall>x < nrows K. \<forall>y < ncols K.
              coeff K x y =
                (if x < nrows M1 \<and> y < ncols M1 then coeff M1 x y
                 else if nrows M1 \<le> x \<and> ncols M1 \<le> y
                 then coeff M2 (x - nrows M1) (y - ncols M1)
                 else 0))"
    by (intro block_diag2_bounded) simp_all
next
  assume "nrows M1 + nrows M2 + nrows M3 < 2 ^ 32 \<and> ncols M1 + ncols M2 + ncols M3 < 2 ^ 32"
  then show "\<exists>K. block_diag3 M1 M2 M3 = Inr K \<and> wf K \<and>
           nrows K = nrows M1 + nrows M2 + nrows M3 \<and>
           ncols K = ncols M1 + ncols M2 + ncols M3 \<and>
           (\<forall>x < nrows K. \<forall>y < ncols K.
              coeff K x y =
                (if x < nrows M1 \<and> y < ncols M1 then coeff M1 x y
                 else if nrows M1 \<le> x \<and> x < nrows M1 + nrows M2 \<and>
                         ncols M1 \<le> y \<and> y < ncols M1 + ncols M2
                 then coeff M2 (x - nrows M1) (y - ncols M1)
                 else if nrows M1 + nrows M2 \<le> x \<and> ncols M1 + ncols M2 \<le> y
                 then coeff M3 (x - (nrows M1 + nrows M2)) (y - (ncols M1 + ncols M2))
                 else 0))"
    by (intro block_diag3_bounded) simp_all
qed

theorem block_diag_placement_witness:
  "(2 :: nat) + 1 < 2 ^ 32 \<and> (1 :: nat) + 2 + 1 < 2 ^ 32 \<and>
   (\<exists>K. block_diag \<lparr>nrows = 2, ncols = 2, coeffs = [1, 3, 2, 4 :: int]\<rparr>
                    \<lparr>nrows = 1, ncols = 1, coeffs = [5]\<rparr> = Inr K \<and>
        nrows K = 3 \<and> ncols K = 3 \<and>
        coeff K 1 0 = 3 \<and> coeff K 2 2 = 5 \<and> coeff K 2 0 = 0 \<and> coeff K 0 2 = 0) \<and>
   (\<exists>K. block_diag3 \<lparr>nrows = 1, ncols = 1, coeffs = [1 :: int]\<rparr>
                     \<lparr>nrows = 2, ncols = 2, coeffs = [2, 4, 3, 5]\<rparr>
                     \<lparr>nrows = 1, ncols = 1, coeffs = [6]\<rparr> = Inr K \<and>
        nrows K = 4 \<and> ncols K = 4 \<and>
        coeff K 0 0 = 1 \<and> coeff K 2 1 = 4 \<and> coeff K 3 3 = 6 \<and> coeff K 3 0 = 0 \<and>
        coeff K 1 3 = 0)"
proof -
  let ?A = "\<lparr>nrows = 2, ncols = 2, coeffs = [1, 3, 2, 4 :: int]\<rparr>"
  let ?B = "\<lparr>nrows = 1, ncols = 1, coeffs = [5 :: int]\<rparr>"
  let ?C = "\<lparr>nrows = 1, ncols = 1, coeffs = [1 :: int]\<rparr>"
  let ?D = "\<lparr>nrows = 2, ncols = 2, coeffs = [2, 4, 3, 5 :: int]\<rparr>"
  let ?E = "\<lparr>nrows = 1, ncols = 1, coeffs = [6 :: int]\<rparr>"
  from block_diag_placement [of ?A ?B ?E]
  obtain K where K: "block_diag ?A ?B = Inr K" "nrows K = 3" "ncols K = 3"
      "\<forall>x < 3. \<forall>y < 3. coeff K x y =
          (if x < 2 \<and> y < 2 then coeff ?A x y
           else if 2 \<le> x \<and> 2 \<le> y then coeff ?B (x - 2) (y - 2) else 0)"
    by auto
  from K(4) have "coeff K 1 0 = coeff ?A 1 0" "coeff K 2 2 = coeff ?B 0 0"
      "coeff K 2 0 = 0" "coeff K 0 2 = 0"
    by simp_all
  then have "coeff K 1 0 = 3" "coeff K 2 2 = 5" "coeff K 2 0 = 0" "coeff K 0 2 = 0"
    by (simp_all add: coeff_def)
  with K(1-3) have two: "\<exists>K. block_diag ?A ?B = Inr K \<and> nrows K = 3 \<and> ncols K = 3 \<and>
        coeff K 1 0 = 3 \<and> coeff K 2 2 = 5 \<and> coeff K 2 0 = 0 \<and> coeff K 0 2 = 0"
    by simp
  from block_diag_placement [of ?C ?D ?E]
  obtain L where L: "block_diag3 ?C ?D ?E = Inr L" "nrows L = 4" "ncols L = 4"
      "\<forall>x < 4. \<forall>y < 4. coeff L x y =
          (if x < 1 \<and> y < 1 then coeff ?C x y
           else if 1 \<le> x \<and> x < 3 \<and> 1 \<le> y \<and> y < 3 then coeff ?D (x - 1) (y - 1)
           else if 3 \<le> x \<and> 3 \<le> y then coeff ?E (x - 3) (y - 3) else 0)"
    by auto
  from L(4) have "coeff L 0 0 = coeff ?C 0 0" "coeff L 2 1 = coeff ?D 1 0"
      "coeff L 3 3 = coeff ?E 0 0" "coeff L 3 0 = 0" "coeff L 1 3 = 0"
    by simp_all
  then have "coeff L 0 0 = 1" "coeff L 2 1 = 4" "coeff L 3 3 = 6" "coeff L 3 0 = 0"
      "coeff L 1 3 = 0"
    by (simp_all add: coeff_def)
  with L(1-3) have three: "\<exists>K. block_diag3 ?C ?D ?E = Inr K \<and> nrows K = 4 \<and> ncols K = 4 \<and>
        coeff K 0 0 = 1 \<and> coeff K 2 1 = 4 \<and> coeff K 3 3 = 6 \<and> coeff K 3 0 = 0 \<and>
        coeff K 1 3 = 0"
    by simp
  from two three show ?thesis by simp
qed

text \<open>
  The counterexample to claim C5 as stated: two operands with \<open>2 ^ 31\<close> rows and no
  columns (they have no coefficients). The sum of the row counts wraps to \<open>0\<close>, the
  result is allocated with no rows, and placing the first block fails the range
  assertion of the substrate.
\<close>

theorem block_diag_wraps:
  "block_diag \<lparr>nrows = 2147483648, ncols = 0, coeffs = [] :: int list\<rparr>
              \<lparr>nrows = 2147483648, ncols = 0, coeffs = []\<rparr> = Inl assertion_failure"
  by (simp add: block_diag_def Zero_def set_block_def)

section \<open>Kronecker product\<close>

lemma in_block_iff:
  "0 < p \<Longrightarrow> (i * p \<le> x \<and> x < i * p + p) = (x div p = (i::nat))"
proof
  assume "0 < p" "i * p \<le> x \<and> x < i * p + p"
  then show "x div p = i"
    by (intro div_nat_eqI) (simp_all add: mult.commute)
next
  assume p: "0 < p" "x div p = i"
  have "(x div p) * p \<le> x" by simp
  moreover have "x < (x div p) * p + p"
    using p(1) by (metis add.commute dividend_less_times_div mult.commute)
  ultimately show "i * p \<le> x \<and> x < i * p + p" using p(2) by simp
qed

lemma block_offset: "x div p = i \<Longrightarrow> x - i * p = x mod (p::nat)"
  by (metis minus_div_mult_eq_mod)

lemma wf_scale: "wf (scale a m) = wf m"
  by (simp add: wf_def scale_def)

lemma coeff_scale:
  "wf m \<Longrightarrow> i < nrows m \<Longrightarrow> j < ncols m \<Longrightarrow> coeff (scale a m) i j = a * coeff m i j"
  by (simp add: coeff_def scale_def wf_def index_less)

lemma dims_scale: "nrows (scale a m) = nrows m" "ncols (scale a m) = ncols m"
  by (simp_all add: scale_def)

lemma div_less_of_less_mult: "x < m * p \<Longrightarrow> x div p < (m::nat)"
  by (simp add: less_mult_imp_div_less)

lemma kron_cols_result:
  fixes A B :: "'a::times matrix"
  assumes wfB: "wf B"
    and n: "ncols A < 2 ^ 31"
    and mp: "nrows A * nrows B < 2 ^ 32" and nq: "ncols A * ncols B < 2 ^ 32"
    and i: "i < nrows A"
  shows "j \<le> ncols A \<Longrightarrow> wf m3 \<Longrightarrow> nrows m3 = nrows A * nrows B \<Longrightarrow> ncols m3 = ncols A * ncols B \<Longrightarrow>
     \<exists>K. kron_cols A B (of_nat (ncols A)) (of_nat (nrows B)) (of_nat (ncols B)) i j m3 = Inr K \<and>
         wf K \<and> nrows K = nrows m3 \<and> ncols K = ncols m3 \<and>
         (\<forall>x < nrows m3. \<forall>y < ncols m3.
            coeff K x y =
              (if x div nrows B = i \<and> j \<le> y div ncols B
               then coeff A i (y div ncols B) * coeff B (x mod nrows B) (y mod ncols B)
               else coeff m3 x y))"
proof (induction "ncols A - j" arbitrary: j m3)
  case 0
  then have "j = ncols A" by simp
  have un: "unat (of_nat (ncols A) :: uint32) = ncols A"
    using n by (simp add: u32_of_nat)
  have "kron_cols A B (of_nat (ncols A)) (of_nat (nrows B)) (of_nat (ncols B)) i j m3 = Inr m3"
    using \<open>j = ncols A\<close> un by (subst kron_cols.simps) simp
  moreover have "\<not> (j \<le> y div ncols B)" if "y < ncols m3" for y
    using that 0(5) \<open>j = ncols A\<close> div_less_of_less_mult [of y "ncols A" "ncols B"] by simp
  ultimately show ?case using 0(3) by simp
next
  case (Suc k)
  let ?p = "nrows B" and ?q = "ncols B"
  from Suc(2) have j: "j < ncols A" by simp
  have un: "unat (of_nat (ncols A) :: uint32) = ncols A"
    using n by (simp add: u32_of_nat)
  have p: "?p < 2 ^ 32"
  proof -
    have "?p \<le> nrows A * ?p" using i by simp
    then show ?thesis using mp by (rule le_less_trans)
  qed
  have q: "?q < 2 ^ 32"
  proof -
    have "?q \<le> ncols A * ?q" using j by simp
    then show ?thesis using nq by (rule le_less_trans)
  qed
  have ip: "i * ?p + ?p \<le> nrows A * ?p"
  proof -
    have "(i + 1) * ?p \<le> nrows A * ?p" using i by (intro mult_le_mono1) simp
    then show ?thesis by simp
  qed
  have jq: "j * ?q + ?q \<le> ncols A * ?q"
  proof -
    have "(j + 1) * ?q \<le> ncols A * ?q" using j by (intro mult_le_mono1) simp
    then show ?thesis by simp
  qed
  have uip: "unat (of_nat i * of_nat ?p :: uint32) = i * ?p"
    using ip mp by (intro u32_mult) simp
  have ujq: "unat (of_nat j * of_nat ?q :: uint32) = j * ?q"
    using jq nq by (intro u32_mult) simp
  have up: "unat (of_nat ?p :: uint32) = ?p" "unat (of_nat ?q :: uint32) = ?q"
    using p q by (simp_all add: u32_of_nat)
  obtain m3' where m3': "set_block m3 (i * ?p) (j * ?q) ?p ?q (scale (coeff A i j) B) = Inr m3'"
    using set_block_ok [of "i * ?p" ?p m3 "j * ?q" ?q "scale (coeff A i j) B"] ip jq Suc(5,6)
    by (auto simp: dims_scale)
  have d': "nrows m3' = nrows m3" "ncols m3' = ncols m3"
    using set_block_dims [OF m3'] by simp_all
  have w': "wf m3'" using set_block_wf [OF m3' Suc(4)] .
  have jmax: "j \<noteq> 2 ^ 31 - 1" using j n by simp
  have step: "kron_cols A B (of_nat (ncols A)) (of_nat ?p) (of_nat ?q) i j m3 =
              kron_cols A B (of_nat (ncols A)) (of_nat ?p) (of_nat ?q) i (j + 1) m3'"
    using j i jmax by (subst kron_cols.simps) (simp add: un coeff_at_def uip ujq up m3' del: of_nat_mult)
  have "k = ncols A - (j + 1)" using Suc(2) by simp
  from Suc(1) [OF this _ w'] j d' Suc(5,6)
  obtain K where K: "kron_cols A B (of_nat (ncols A)) (of_nat ?p) (of_nat ?q) i (j + 1) m3' = Inr K"
      "wf K" "nrows K = nrows m3'" "ncols K = ncols m3'"
      "\<forall>x < nrows m3'. \<forall>y < ncols m3'.
            coeff K x y =
              (if x div ?p = i \<and> j + 1 \<le> y div ?q
               then coeff A i (y div ?q) * coeff B (x mod ?p) (y mod ?q)
               else coeff m3' x y)"
    by auto
  have "coeff K x y =
              (if x div ?p = i \<and> j \<le> y div ?q
               then coeff A i (y div ?q) * coeff B (x mod ?p) (y mod ?q)
               else coeff m3 x y)" if xy: "x < nrows m3" "y < ncols m3" for x y
  proof -
    have pq: "0 < ?p" "0 < ?q" using xy Suc(5,6) by (auto intro: Nat.gr0I)
    have c': "coeff m3' x y =
        (if x div ?p = i \<and> y div ?q = j
         then coeff A i j * coeff B (x mod ?p) (y mod ?q) else coeff m3 x y)"
    proof -
      have raw: "coeff m3' x y =
          (if i * ?p \<le> x \<and> x < i * ?p + ?p \<and> j * ?q \<le> y \<and> y < j * ?q + ?q
           then coeff (scale (coeff A i j) B) (x - i * ?p) (y - j * ?q) else coeff m3 x y)"
        by (rule set_block_coeff [OF m3' Suc(4) xy])
      have rb: "(i * ?p \<le> x \<and> x < i * ?p + ?p) = (x div ?p = i)"
        by (rule in_block_iff [OF pq(1)])
      have cb: "(j * ?q \<le> y \<and> y < j * ?q + ?q) = (y div ?q = j)"
        by (rule in_block_iff [OF pq(2)])
      show ?thesis
      proof (cases "x div ?p = i \<and> y div ?q = j")
        case True
        then have inb: "i * ?p \<le> x \<and> x < i * ?p + ?p \<and> j * ?q \<le> y \<and> y < j * ?q + ?q"
          using rb cb by blast
        have off: "x - i * ?p = x mod ?p" "y - j * ?q = y mod ?q"
          using True by (simp_all add: block_offset)
        have "coeff (scale (coeff A i j) B) (x mod ?p) (y mod ?q) =
                coeff A i j * coeff B (x mod ?p) (y mod ?q)"
          using pq by (intro coeff_scale wfB) simp_all
        with raw inb off True show ?thesis by simp
      next
        case False
        then have "\<not> (i * ?p \<le> x \<and> x < i * ?p + ?p \<and> j * ?q \<le> y \<and> y < j * ?q + ?q)"
          using rb cb by blast
        with raw False show ?thesis by auto
      qed
    qed
    have "coeff K x y =
              (if x div ?p = i \<and> j + 1 \<le> y div ?q
               then coeff A i (y div ?q) * coeff B (x mod ?p) (y mod ?q)
               else coeff m3' x y)"
      using K(5) xy d' by simp
    then show ?thesis unfolding c' by (auto simp: le_Suc_eq)
  qed
  with K step d' show ?case by simp
qed

lemma kron_rows_result:
  fixes A B :: "'a::times matrix"
  assumes wfB: "wf B"
    and m: "nrows A < 2 ^ 31" and n: "ncols A < 2 ^ 31"
    and mp: "nrows A * nrows B < 2 ^ 32" and nq: "ncols A * ncols B < 2 ^ 32"
  shows "i \<le> nrows A \<Longrightarrow> wf m3 \<Longrightarrow> nrows m3 = nrows A * nrows B \<Longrightarrow> ncols m3 = ncols A * ncols B \<Longrightarrow>
     \<exists>K. kron_rows A B (of_nat (nrows A)) (of_nat (ncols A)) (of_nat (nrows B)) (of_nat (ncols B))
            i m3 = Inr K \<and>
         wf K \<and> nrows K = nrows m3 \<and> ncols K = ncols m3 \<and>
         (\<forall>x < nrows m3. \<forall>y < ncols m3.
            coeff K x y =
              (if i \<le> x div nrows B
               then coeff A (x div nrows B) (y div ncols B) * coeff B (x mod nrows B) (y mod ncols B)
               else coeff m3 x y))"
proof (induction "nrows A - i" arbitrary: i m3)
  case 0
  then have "i = nrows A" by simp
  have um: "unat (of_nat (nrows A) :: uint32) = nrows A"
    using m by (simp add: u32_of_nat)
  have "kron_rows A B (of_nat (nrows A)) (of_nat (ncols A)) (of_nat (nrows B)) (of_nat (ncols B))
          i m3 = Inr m3"
    using \<open>i = nrows A\<close> um by (subst kron_rows.simps) simp
  moreover have "\<not> (i \<le> x div nrows B)" if "x < nrows m3" for x
    using that 0(4) \<open>i = nrows A\<close> div_less_of_less_mult [of x "nrows A" "nrows B"] by simp
  ultimately show ?case using 0(3) by simp
next
  case (Suc k)
  let ?p = "nrows B" and ?q = "ncols B"
  from Suc(2) have i: "i < nrows A" by simp
  have um: "unat (of_nat (nrows A) :: uint32) = nrows A"
    using m by (simp add: u32_of_nat)
  have "\<exists>K. kron_cols A B (of_nat (ncols A)) (of_nat ?p) (of_nat ?q) i 0 m3 = Inr K \<and>
         wf K \<and> nrows K = nrows m3 \<and> ncols K = ncols m3 \<and>
         (\<forall>x < nrows m3. \<forall>y < ncols m3.
            coeff K x y =
              (if x div ?p = i \<and> 0 \<le> y div ?q
               then coeff A i (y div ?q) * coeff B (x mod ?p) (y mod ?q)
               else coeff m3 x y))"
    by (rule kron_cols_result [OF wfB n mp nq i _ Suc(4,5,6)]) simp
  then obtain m3' where m3':
      "kron_cols A B (of_nat (ncols A)) (of_nat ?p) (of_nat ?q) i 0 m3 = Inr m3'"
      "wf m3'" "nrows m3' = nrows m3" "ncols m3' = ncols m3"
      "\<forall>x < nrows m3. \<forall>y < ncols m3.
         coeff m3' x y =
           (if x div ?p = i \<and> 0 \<le> y div ?q
            then coeff A i (y div ?q) * coeff B (x mod ?p) (y mod ?q)
            else coeff m3 x y)"
    by blast
  have imax: "i \<noteq> 2 ^ 31 - 1" using i m by simp
  have step: "kron_rows A B (of_nat (nrows A)) (of_nat (ncols A)) (of_nat ?p) (of_nat ?q) i m3 =
              kron_rows A B (of_nat (nrows A)) (of_nat (ncols A)) (of_nat ?p) (of_nat ?q) (i + 1) m3'"
    using i imax by (subst kron_rows.simps) (simp add: um m3'(1))
  have "k = nrows A - (i + 1)" using Suc(2) by simp
  then have "\<exists>K. kron_rows A B (of_nat (nrows A)) (of_nat (ncols A)) (of_nat ?p) (of_nat ?q)
                  (i + 1) m3' = Inr K \<and>
         wf K \<and> nrows K = nrows m3' \<and> ncols K = ncols m3' \<and>
         (\<forall>x < nrows m3'. \<forall>y < ncols m3'.
            coeff K x y =
              (if i + 1 \<le> x div ?p
               then coeff A (x div ?p) (y div ?q) * coeff B (x mod ?p) (y mod ?q)
               else coeff m3' x y))"
  proof (rule Suc(1))
    show "i + 1 \<le> nrows A" using i by simp
    show "wf m3'" by (rule m3'(2))
    show "nrows m3' = nrows A * ?p" using m3'(3) Suc(5) by simp
    show "ncols m3' = ncols A * ?q" using m3'(4) Suc(6) by simp
  qed
  then obtain K where K:
      "kron_rows A B (of_nat (nrows A)) (of_nat (ncols A)) (of_nat ?p) (of_nat ?q) (i + 1) m3' = Inr K"
      "wf K" "nrows K = nrows m3'" "ncols K = ncols m3'"
      "\<forall>x < nrows m3'. \<forall>y < ncols m3'.
            coeff K x y =
              (if i + 1 \<le> x div ?p
               then coeff A (x div ?p) (y div ?q) * coeff B (x mod ?p) (y mod ?q)
               else coeff m3' x y)"
    by blast
  have "coeff K x y =
              (if i \<le> x div ?p
               then coeff A (x div ?p) (y div ?q) * coeff B (x mod ?p) (y mod ?q)
               else coeff m3 x y)" if xy: "x < nrows m3" "y < ncols m3" for x y
  proof -
    have c': "coeff m3' x y =
           (if x div ?p = i
            then coeff A i (y div ?q) * coeff B (x mod ?p) (y mod ?q)
            else coeff m3 x y)"
      using m3'(5) xy by simp
    have "coeff K x y =
              (if i + 1 \<le> x div ?p
               then coeff A (x div ?p) (y div ?q) * coeff B (x mod ?p) (y mod ?q)
               else coeff m3' x y)"
      using K(5) xy m3'(3,4) by simp
    then show ?thesis unfolding c' by (cases "x div ?p = i") auto
  qed
  with K step m3'(3,4) show ?case by simp
qed

lemma wf_uninitialized: "wf (uninitialized junk r c)"
  by (simp add: wf_def uninitialized_def)

lemma kron_result:
  fixes A B :: "'a::times matrix"
  assumes wfB: "wf B"
    and m: "nrows A < 2 ^ 31" and n: "ncols A < 2 ^ 31"
    and mp: "nrows A * nrows B < 2 ^ 32" and nq: "ncols A * ncols B < 2 ^ 32"
  shows "\<exists>K. kron junk A B = Inr K \<and> wf K \<and>
           nrows K = nrows A * nrows B \<and> ncols K = ncols A * ncols B \<and>
           (\<forall>x < nrows A * nrows B. \<forall>y < ncols A * ncols B.
              coeff K x y =
                coeff A (x div nrows B) (y div ncols B) * coeff B (x mod nrows B) (y mod ncols B))"
proof -
  let ?m3 = "uninitialized junk (nrows A * nrows B) (ncols A * ncols B)"
  have u: "unat (of_nat (nrows A) * of_nat (nrows B) :: uint32) = nrows A * nrows B"
      "unat (of_nat (ncols A) * of_nat (ncols B) :: uint32) = ncols A * ncols B"
    using mp nq by (simp_all only: u32_mult)
  have k: "kron junk A B =
      kron_rows A B (of_nat (nrows A)) (of_nat (ncols A)) (of_nat (nrows B)) (of_nat (ncols B)) 0 ?m3"
    by (simp add: kron_def Let_def u del: of_nat_mult)
  have d: "nrows ?m3 = nrows A * nrows B" "ncols ?m3 = ncols A * ncols B"
    by (simp_all add: uninitialized_def)
  have "\<exists>K. kron_rows A B (of_nat (nrows A)) (of_nat (ncols A)) (of_nat (nrows B)) (of_nat (ncols B))
            0 ?m3 = Inr K \<and>
         wf K \<and> nrows K = nrows ?m3 \<and> ncols K = ncols ?m3 \<and>
         (\<forall>x < nrows ?m3. \<forall>y < ncols ?m3.
            coeff K x y =
              (if 0 \<le> x div nrows B
               then coeff A (x div nrows B) (y div ncols B) * coeff B (x mod nrows B) (y mod ncols B)
               else coeff ?m3 x y))"
    by (rule kron_rows_result [OF wfB m n mp nq _ wf_uninitialized d]) simp
  then obtain K where K: "kron_rows A B (of_nat (nrows A)) (of_nat (ncols A)) (of_nat (nrows B))
            (of_nat (ncols B)) 0 ?m3 = Inr K" "wf K" "nrows K = nrows ?m3" "ncols K = ncols ?m3"
         "\<forall>x < nrows ?m3. \<forall>y < ncols ?m3.
            coeff K x y =
              (if 0 \<le> x div nrows B
               then coeff A (x div nrows B) (y div ncols B) * coeff B (x mod nrows B) (y mod ncols B)
               else coeff ?m3 x y)"
    by blast
  have "kron junk A B = Inr K" using k K(1) by simp
  moreover have "nrows K = nrows A * nrows B" "ncols K = ncols A * ncols B"
    using K(3,4) d by simp_all
  moreover have "\<forall>x < nrows A * nrows B. \<forall>y < ncols A * ncols B.
              coeff K x y =
                coeff A (x div nrows B) (y div ncols B) * coeff B (x mod nrows B) (y mod ncols B)"
    using K(5) unfolding d by simp
  ultimately show ?thesis using K(2) by blast
qed

lemma kron_counter_overflow_rows:
  assumes "ncols A = 0" and "2 ^ 31 \<le> unat m1r"
  shows "i < 2 ^ 31 \<Longrightarrow> kron_rows A B m1r 0 m2r m2c i m3 = Inl undefined_behaviour"
proof (induction "2 ^ 31 - 1 - i" arbitrary: i)
  case 0
  then have "i = 2 ^ 31 - 1" by simp
  then show ?case using assms(2)
    by (subst kron_rows.simps) (simp add: kron_cols.simps)
next
  case (Suc k)
  then have i: "i \<noteq> 2 ^ 31 - 1" "i + 1 < 2 ^ 31" "k = 2 ^ 31 - 1 - (i + 1)" by simp_all
  have "kron_rows A B m1r 0 m2r m2c i m3 = kron_rows A B m1r 0 m2r m2c (i + 1) m3"
    using assms(2) i(1,2) by (subst kron_rows.simps) (simp add: kron_cols.simps)
  then show ?case using Suc(1) [OF i(3) i(2)] by simp
qed

text \<open>
  Claim C1 says that \<open>kron\<close> returns the Kronecker product for every pair of matrices
  and never fails. The dimensions of the result are products in \<^verbatim>\<open>uint32_t\<close> and wrap,
  and the loop counters are of type \<^verbatim>\<open>int\<close> (lemma \<open>kron_counter_overflow_rows\<close>: with
  \<open>2 ^ 31\<close> or more rows in \<open>A\<close> the increment of the counter overflows).
  Claim C1, amended: for every matrix \<open>A\<close> of shape \<open>m \<times> n\<close> with \<open>m, n < 2 ^ 31\<close> and
  every matrix \<open>B\<close> of shape \<open>p \<times> q\<close> with \<open>m * p < 2 ^ 32\<close> and \<open>n * q < 2 ^ 32\<close>,
  \<open>kron(A, B)\<close> does not fail, its result \<open>K\<close> has shape \<open>(m * p) \<times> (n * q)\<close>, and for
  every \<open>(i, j)\<close> with \<open>i < m\<close> and \<open>j < n\<close> the \<open>p \<times> q\<close> submatrix of \<open>K\<close> with top-left
  corner \<open>(i * p, j * q)\<close> equals \<open>A[i,j] * B\<close>; if a dimension of an operand is zero, the
  result has that zero dimension and no elements.
\<close>

theorem kron_blocks:
  fixes A B :: "'a::times matrix"
  assumes "wf B"
    and "nrows A < 2 ^ 31" and "ncols A < 2 ^ 31"
    and "nrows A * nrows B < 2 ^ 32" and "ncols A * ncols B < 2 ^ 32"
  shows "\<exists>K. kron junk A B = Inr K \<and>
           nrows K = nrows A * nrows B \<and> ncols K = ncols A * ncols B \<and>
           length (coeffs K) = nrows A * nrows B * (ncols A * ncols B) \<and>
           (\<forall>i < nrows A. \<forall>j < ncols A. \<forall>k < nrows B. \<forall>l < ncols B.
              coeff K (i * nrows B + k) (j * ncols B + l) = coeff A i j * coeff B k l) \<and>
           (nrows A = 0 \<or> ncols A = 0 \<or> nrows B = 0 \<or> ncols B = 0 \<longrightarrow> coeffs K = [])"
proof -
  from kron_result [OF assms, of junk]
  obtain K where K: "kron junk A B = Inr K" "wf K"
      "nrows K = nrows A * nrows B" "ncols K = ncols A * ncols B"
      "\<forall>x < nrows A * nrows B. \<forall>y < ncols A * ncols B.
              coeff K x y =
                coeff A (x div nrows B) (y div ncols B) * coeff B (x mod nrows B) (y mod ncols B)"
    by blast
  have len: "length (coeffs K) = nrows A * nrows B * (ncols A * ncols B)"
    using K(2,3,4) by (simp add: wf_def)
  have blk: "coeff K (i * nrows B + k) (j * ncols B + l) = coeff A i j * coeff B k l"
    if "i < nrows A" "j < ncols A" "k < nrows B" "l < ncols B" for i j k l
  proof -
    have x: "i * nrows B + k < nrows A * nrows B"
      using index_less [OF that(3,1)] by (simp add: mult.commute)
    have y: "j * ncols B + l < ncols A * ncols B"
      using index_less [OF that(4,2)] by (simp add: mult.commute)
    from K(5) x y have "coeff K (i * nrows B + k) (j * ncols B + l) =
        coeff A ((i * nrows B + k) div nrows B) ((j * ncols B + l) div ncols B) *
        coeff B ((i * nrows B + k) mod nrows B) ((j * ncols B + l) mod ncols B)"
      by blast
    then show ?thesis using that(3,4) by (simp add: index_mod index_div)
  qed
  have e: "nrows A = 0 \<or> ncols A = 0 \<or> nrows B = 0 \<or> ncols B = 0 \<longrightarrow> coeffs K = []"
    using len by auto
  show ?thesis
    by (intro exI [of _ K] conjI allI impI) (simp_all add: K(1,3,4) len blk e [rule_format])
qed

theorem kron_blocks_witness:
  "wf \<lparr>nrows = 1, ncols = 2, coeffs = [5, 7 :: int]\<rparr> \<and>
   (2 :: nat) < 2 ^ 31 \<and> (1 :: nat) < 2 ^ 31 \<and> (2 :: nat) * 1 < 2 ^ 32 \<and> (1 :: nat) * 2 < 2 ^ 32 \<and>
   (\<exists>K. kron of_nat \<lparr>nrows = 2, ncols = 1, coeffs = [2, 3 :: int]\<rparr>
                    \<lparr>nrows = 1, ncols = 2, coeffs = [5, 7]\<rparr> = Inr K \<and>
        nrows K = 2 \<and> ncols K = 2 \<and> length (coeffs K) = 4 \<and>
        coeff K 0 0 = 10 \<and> coeff K 1 0 = 15 \<and> coeff K 0 1 = 14 \<and> coeff K 1 1 = 21)"
proof -
  let ?A = "\<lparr>nrows = 2, ncols = 1, coeffs = [2, 3 :: int]\<rparr>"
  let ?B = "\<lparr>nrows = 1, ncols = 2, coeffs = [5, 7 :: int]\<rparr>"
  have w: "wf ?B" by (simp add: wf_def)
  from kron_blocks [OF w, of ?A of_nat]
  obtain K where K: "kron of_nat ?A ?B = Inr K" "nrows K = 2" "ncols K = 2"
      "length (coeffs K) = 4"
      "\<forall>i < 2. \<forall>j < 1. \<forall>k < 1. \<forall>l < 2. coeff K (i + k) (j * 2 + l) = coeff ?A i j * coeff ?B k l"
    by auto
  from K(5) have "coeff K (0 + 0) (0 * 2 + 0) = coeff ?A 0 0 * coeff ?B 0 0"
      "coeff K (1 + 0) (0 * 2 + 0) = coeff ?A 1 0 * coeff ?B 0 0"
      "coeff K (0 + 0) (0 * 2 + 1) = coeff ?A 0 0 * coeff ?B 0 1"
      "coeff K (1 + 0) (0 * 2 + 1) = coeff ?A 1 0 * coeff ?B 0 1"
    by simp_all
  then have "coeff K 0 0 = 10" "coeff K 1 0 = 15" "coeff K 0 1 = 14" "coeff K 1 1 = 21"
    by (simp_all add: coeff_def)
  with K(1-4) w show ?thesis by simp
qed

text \<open>
  The counterexample to claim C1 as stated: \<open>A\<close> with 2 rows and \<open>B\<close> with \<open>2 ^ 31\<close>
  rows, both without columns (and so without coefficients). The claim gives the result
  \<open>2 ^ 32\<close> rows; the product wraps and the result has none.
\<close>

theorem kron_wraps:
  "kron of_nat \<lparr>nrows = 2, ncols = 0, coeffs = [] :: int list\<rparr>
               \<lparr>nrows = 2147483648, ncols = 0, coeffs = []\<rparr>
     = Inr \<lparr>nrows = 0, ncols = 0, coeffs = []\<rparr> \<and>
   (0 :: nat) \<noteq> 2 * 2147483648"
  by (simp add: kron_def uninitialized_def kron_rows.simps kron_cols.simps)


section \<open>Kronecker product with a scalar\<close>

lemma kron_scalar_left:
  fixes B :: "'a::times matrix"
  assumes wfB: "wf B" and p: "nrows B < 2 ^ 32" and q: "ncols B < 2 ^ 32"
  shows "kron junk \<lparr>nrows = 1, ncols = 1, coeffs = [a]\<rparr> B = Inr (scale a B)"
proof -
  let ?A = "\<lparr>nrows = 1, ncols = 1, coeffs = [a]\<rparr>"
  have "\<exists>K. kron junk ?A B = Inr K \<and> wf K \<and>
           nrows K = nrows ?A * nrows B \<and> ncols K = ncols ?A * ncols B \<and>
           (\<forall>x < nrows ?A * nrows B. \<forall>y < ncols ?A * ncols B.
              coeff K x y =
                coeff ?A (x div nrows B) (y div ncols B) * coeff B (x mod nrows B) (y mod ncols B))"
    using p q by (intro kron_result wfB) simp_all
  then obtain K where K: "kron junk ?A B = Inr K" "wf K" "nrows K = nrows B" "ncols K = ncols B"
      "\<forall>x < nrows B. \<forall>y < ncols B.
              coeff K x y =
                coeff ?A (x div nrows B) (y div ncols B) * coeff B (x mod nrows B) (y mod ncols B)"
    by auto
  have "K = scale a B"
  proof (rule matrix_eqI)
    show "wf K" by (rule K(2))
    show "wf (scale a B)" using wfB by (simp add: wf_scale)
    show "nrows K = nrows (scale a B)" "ncols K = ncols (scale a B)"
      using K(3,4) by (simp_all add: dims_scale)
    fix i j assume ij: "i < nrows K" "j < ncols K"
    then have ij': "i < nrows B" "j < ncols B" using K(3,4) by simp_all
    with K(5) have "coeff K i j =
        coeff ?A (i div nrows B) (j div ncols B) * coeff B (i mod nrows B) (j mod ncols B)"
      by blast
    also have "\<dots> = a * coeff B i j" using ij' by (simp add: coeff_def)
    also have "\<dots> = coeff (scale a B) i j" using ij' wfB by (simp add: coeff_scale)
    finally show "coeff K i j = coeff (scale a B) i j" .
  qed
  with K(1) show ?thesis by simp
qed

lemma kron_scalar_right:
  fixes A :: "'a::{times,one} matrix"
  assumes wfA: "wf A" and m: "nrows A < 2 ^ 31" and n: "ncols A < 2 ^ 31"
    and unit: "\<forall>x :: 'a. x * 1 = x"
  shows "kron junk A \<lparr>nrows = 1, ncols = 1, coeffs = [1]\<rparr> = Inr A"
proof -
  let ?B = "\<lparr>nrows = 1, ncols = 1, coeffs = [1 :: 'a]\<rparr>"
  have wfB: "wf ?B" by (simp add: wf_def)
  have "\<exists>K. kron junk A ?B = Inr K \<and> wf K \<and>
           nrows K = nrows A * nrows ?B \<and> ncols K = ncols A * ncols ?B \<and>
           (\<forall>x < nrows A * nrows ?B. \<forall>y < ncols A * ncols ?B.
              coeff K x y =
                coeff A (x div nrows ?B) (y div ncols ?B) * coeff ?B (x mod nrows ?B) (y mod ncols ?B))"
    using m n by (intro kron_result wfB) simp_all
  then obtain K where K: "kron junk A ?B = Inr K" "wf K" "nrows K = nrows A" "ncols K = ncols A"
      "\<forall>x < nrows A. \<forall>y < ncols A. coeff K x y = coeff A x y * coeff ?B 0 0"
    by auto
  have "K = A"
  proof (rule matrix_eqI)
    show "wf K" by (rule K(2))
    show "wf A" by (rule wfA)
    show "nrows K = nrows A" "ncols K = ncols A" by (rule K(3), rule K(4))
    fix i j assume ij: "i < nrows K" "j < ncols K"
    then have "coeff K i j = coeff A i j * coeff ?B 0 0" using K(3,4,5) by simp
    then show "coeff K i j = coeff A i j" using unit by (simp add: coeff_def)
  qed
  with K(1) show ?thesis by simp
qed

text \<open>
  Claim C8 says that \<open>kron([[a]], B) = a * B\<close> for every matrix \<open>B\<close> and that
  \<open>kron(A, [[1]]) = A\<close> for every matrix \<open>A\<close>. The dimensions of the operands are read into
  \<^verbatim>\<open>uint32_t\<close>, and the rows and columns of \<open>A\<close> are counted in \<^verbatim>\<open>int\<close>.
  Claim C8, amended: for every scalar \<open>a\<close> and every matrix \<open>B\<close> with fewer than \<open>2 ^ 32\<close>
  rows and fewer than \<open>2 ^ 32\<close> columns, \<open>kron\<close> applied to the 1 by 1 matrix \<open>[[a]]\<close> and \<open>B\<close>
  equals the entrywise scaling \<open>a * B\<close>; and for every matrix \<open>A\<close> with fewer than \<open>2 ^ 31\<close>
  rows and fewer than \<open>2 ^ 31\<close> columns, \<open>kron(A, [[1]]) = A\<close>. Of the arithmetic of the
  elements only \<open>x * 1 = x\<close> is used, which holds for floats.
\<close>

theorem kron_scalars:
  fixes A B :: "'a::{times,one} matrix"
  shows "(wf B \<and> nrows B < 2 ^ 32 \<and> ncols B < 2 ^ 32 \<longrightarrow>
            kron junk \<lparr>nrows = 1, ncols = 1, coeffs = [a]\<rparr> B = Inr (scale a B)) \<and>
         (wf A \<and> nrows A < 2 ^ 31 \<and> ncols A < 2 ^ 31 \<and> (\<forall>x :: 'a. x * 1 = x) \<longrightarrow>
            kron junk A \<lparr>nrows = 1, ncols = 1, coeffs = [1]\<rparr> = Inr A)"
  using kron_scalar_left [of B junk a] kron_scalar_right [of A junk] by blast

theorem kron_scalars_witness:
  "wf \<lparr>nrows = 2, ncols = 1, coeffs = [2, 3 :: int]\<rparr> \<and> (\<forall>x :: int. x * 1 = x) \<and>
   kron of_nat \<lparr>nrows = 1, ncols = 1, coeffs = [7]\<rparr> \<lparr>nrows = 2, ncols = 1, coeffs = [2, 3 :: int]\<rparr>
     = Inr \<lparr>nrows = 2, ncols = 1, coeffs = [14, 21]\<rparr> \<and>
   kron of_nat \<lparr>nrows = 2, ncols = 1, coeffs = [2, 3 :: int]\<rparr> \<lparr>nrows = 1, ncols = 1, coeffs = [1]\<rparr>
     = Inr \<lparr>nrows = 2, ncols = 1, coeffs = [2, 3]\<rparr>"
  using kron_scalars [of "\<lparr>nrows = 2, ncols = 1, coeffs = [2, 3 :: int]\<rparr>" of_nat 7
      "\<lparr>nrows = 2, ncols = 1, coeffs = [2, 3 :: int]\<rparr>"]
  by (simp add: wf_def scale_def)

text \<open>
  The counterexample to claim C8 as stated: \<open>B\<close> with \<open>2 ^ 32\<close> rows and no columns (it
  has no coefficients). Its row count is truncated to \<open>0\<close>, and assigning \<open>7 * B\<close> to the
  block with no rows fails the shape assertion of the substrate. Likewise
  \<open>kron(A, [[1]])\<close> for \<open>A\<close> of that shape returns a matrix with no rows.
\<close>

theorem kron_scalar_truncates:
  "wf \<lparr>nrows = 4294967296, ncols = 0, coeffs = [] :: int list\<rparr> \<and>
   kron of_nat \<lparr>nrows = 1, ncols = 1, coeffs = [7]\<rparr>
               \<lparr>nrows = 4294967296, ncols = 0, coeffs = [] :: int list\<rparr> = Inl assertion_failure"
  by (simp add: wf_def kron_def uninitialized_def kron_rows.simps kron_cols.simps coeff_at_def
        coeff_def set_block_def scale_def)

lemma kron_unit_truncates:
  "kron of_nat \<lparr>nrows = 4294967296, ncols = 0, coeffs = [] :: int list\<rparr>
               \<lparr>nrows = 1, ncols = 1, coeffs = [1]\<rparr> = Inr \<lparr>nrows = 0, ncols = 0, coeffs = []\<rparr>"
  by (simp add: kron_def uninitialized_def kron_rows.simps kron_cols.simps)

section \<open>Facts about single-precision arithmetic\<close>

text \<open>
  The binary exponent is the right one, and \<open>round32\<close> returns a nearest value with a
  significand of 24 bits: the rounding of IEEE 754.
\<close>

lemma pow2_powi: "pow2 e = 2 powi e"
  by (simp add: pow2_def power_int_def inverse_eq_divide power_one_over)

lemma bit_length_bounds:
  "0 < n \<Longrightarrow> 2 ^ (bit_length n - 1) \<le> n \<and> n < 2 ^ bit_length n"
proof (induction n rule: bit_length.induct)
  case (1 n)
  show ?case
  proof (cases "n div 2 = 0")
    case True
    with 1(2) have "n = 1" by presburger
    then show ?thesis by (simp add: bit_length.simps [of 1] bit_length.simps [of 0])
  next
    case False
    with 1(2) have m: "0 < n div 2" by presburger
    from 1(1) [OF _ m] 1(2)
    have ih: "2 ^ (bit_length (n div 2) - 1) \<le> n div 2" "n div 2 < 2 ^ bit_length (n div 2)"
      by auto
    have pos: "0 < bit_length (n div 2)"
      using m by (subst bit_length.simps) simp
    have b: "bit_length n = Suc (bit_length (n div 2))"
      using 1(2) by (subst bit_length.simps) simp
    have "(2::int) ^ bit_length (n div 2) = 2 * 2 ^ (bit_length (n div 2) - 1)"
      using pos by (cases "bit_length (n div 2)") simp_all
    then have lo: "2 ^ bit_length (n div 2) \<le> n" using ih(1) by linarith
    have hi: "n < 2 * 2 ^ bit_length (n div 2)" using ih(2) by linarith
    show ?thesis using lo hi by (simp add: b)
  qed
qed

lemma ilog2_bounds:
  assumes "0 < q"
  shows "pow2 (ilog2 q) \<le> q \<and> q < pow2 (ilog2 q + 1)"
proof -
  obtain a b where ab: "quotient_of q = (a, b)" by (cases "quotient_of q")
  then have b: "0 < b" and q: "q = of_int a / of_int b"
    using quotient_of_denom_pos [OF ab] quotient_of_div [OF ab] by simp_all
  have a: "0 < a" using assms b q by (simp add: zero_less_divide_iff)
  define la lb where "la = bit_length a" and "lb = bit_length b"
  define k where "k = int la - int lb"
  note ba = bit_length_bounds [OF a, folded la_def] and bb = bit_length_bounds [OF b, folded lb_def]
  have la: "0 < la" using ba by (cases la) auto
  have lb: "0 < lb" using bb by (cases lb) auto
  have ra: "(2::rat) powi (int la - 1) \<le> of_int a" "of_int a < (2::rat) powi (int la)"
  proof -
    have "(2::rat) ^ (la - 1) \<le> of_int a" using ba
      by (metis of_int_le_iff of_int_numeral of_int_power)
    then show "(2::rat) powi (int la - 1) \<le> of_int a"
      using la by (simp add: power_int_def nat_diff_distrib')
    have "of_int a < (2::rat) ^ la" using ba
      by (metis of_int_less_iff of_int_numeral of_int_power)
    then show "of_int a < (2::rat) powi (int la)" by simp
  qed
  have rb: "(2::rat) powi (int lb - 1) \<le> of_int b" "of_int b < (2::rat) powi (int lb)"
  proof -
    have "(2::rat) ^ (lb - 1) \<le> of_int b" using bb
      by (metis of_int_le_iff of_int_numeral of_int_power)
    then show "(2::rat) powi (int lb - 1) \<le> of_int b"
      using lb by (simp add: power_int_def nat_diff_distrib')
    have "of_int b < (2::rat) ^ lb" using bb
      by (metis of_int_less_iff of_int_numeral of_int_power)
    then show "of_int b < (2::rat) powi (int lb)" by simp
  qed
  have bpos: "(0::rat) < of_int b" using b by simp
  have lo: "2 powi (k - 1) < q"
  proof -
    have "2 powi (k - 1) * of_int b < (2::rat) powi (k - 1) * 2 powi (int lb)"
      using rb(2) by (intro mult_strict_left_mono) simp_all
    also have "\<dots> = 2 powi (int la - 1)"
      using power_int_add [of "2::rat" "k - 1" "int lb"] by (simp add: k_def)
    also have "\<dots> \<le> of_int a" by (rule ra(1))
    finally show ?thesis using bpos by (simp add: q pos_less_divide_eq)
  qed
  have hi: "q < 2 powi (k + 1)"
  proof -
    have "of_int a < (2::rat) powi (int la)" by (rule ra(2))
    also have "\<dots> = 2 powi (k + 1) * 2 powi (int lb - 1)"
      using power_int_add [of "2::rat" "k + 1" "int lb - 1"] by (simp add: k_def)
    also have "\<dots> \<le> 2 powi (k + 1) * of_int b"
      using rb(1) by (intro mult_left_mono) simp_all
    finally show ?thesis using bpos by (simp add: q pos_divide_less_eq)
  qed
  have i: "ilog2 q = (if pow2 k \<le> q then k else k - 1)"
    by (simp add: ilog2_def ab Let_def k_def la_def lb_def)
  show ?thesis
    using lo hi by (auto simp: i pow2_powi not_le less_imp_le)
qed

lemma pow2_pos: "0 < pow2 e"
  by (simp add: pow2_def)

lemma round_even_nearest: "\<bar>of_int (round_even r) - r\<bar> \<le> 1 / 2"
proof -
  have "of_int \<lfloor>r\<rfloor> \<le> r" "r < of_int \<lfloor>r\<rfloor> + 1" by linarith+
  then show ?thesis by (auto simp: round_even_def Let_def abs_le_iff not_less)
qed

lemma round_even_mono_bound: "\<bar>r\<bar> \<le> of_int z \<Longrightarrow> \<bar>round_even r\<bar> \<le> z"
proof -
  assume a: "\<bar>r\<bar> \<le> of_int z"
  then have r: "- of_int z \<le> r" "r \<le> of_int z" by (simp_all add: abs_le_iff minus_le_iff)
  then have f: "- z \<le> \<lfloor>r\<rfloor>" "\<lfloor>r\<rfloor> \<le> z" by (simp_all add: le_floor_iff floor_le_iff)
  have "round_even r = \<lfloor>r\<rfloor> \<or> (round_even r = \<lfloor>r\<rfloor> + 1 \<and> r \<noteq> of_int \<lfloor>r\<rfloor>)"
    by (auto simp: round_even_def Let_def)
  then show ?thesis
  proof
    assume "round_even r = \<lfloor>r\<rfloor>"
    then show ?thesis using f by (simp add: abs_le_iff)
  next
    assume up: "round_even r = \<lfloor>r\<rfloor> + 1 \<and> r \<noteq> of_int \<lfloor>r\<rfloor>"
    have "\<lfloor>r\<rfloor> \<noteq> z"
    proof
      assume "\<lfloor>r\<rfloor> = z"
      then have "of_int z \<le> r" by (metis of_int_floor_le)
      with r(2) have "r = of_int \<lfloor>r\<rfloor>" using \<open>\<lfloor>r\<rfloor> = z\<close> by simp
      with up show False by simp
    qed
    with f up show ?thesis by (simp add: abs_le_iff)
  qed
qed

lemma round32_nearest:
  assumes "round32 q = Finite v"
  shows "\<exists>m. \<bar>m\<bar> \<le> 2 ^ 24 \<and>
           v = of_int m * pow2 (max (ilog2 \<bar>q\<bar> - 23) (- 149)) \<and>
           \<bar>v - q\<bar> \<le> pow2 (max (ilog2 \<bar>q\<bar> - 23) (- 149)) / 2"
proof (cases "q = 0")
  case True
  with assms show ?thesis by (intro exI [of _ 0]) (simp add: round32_def pow2_pos less_imp_le)
next
  case False
  define e where "e = max (ilog2 \<bar>q\<bar> - 23) (- 149)"
  define m where "m = round_even (q / pow2 e)"
  have P: "0 < pow2 e" by (rule pow2_pos)
  from assms False have v: "v = of_int m * pow2 e"
    by (simp add: round32_def Let_def e_def m_def split: if_splits)
  have "\<bar>of_int m - q / pow2 e\<bar> \<le> 1 / 2" unfolding m_def by (rule round_even_nearest)
  then have "\<bar>of_int m - q / pow2 e\<bar> * pow2 e \<le> 1 / 2 * pow2 e"
    using P by (intro mult_right_mono) simp_all
  moreover have "\<bar>of_int m - q / pow2 e\<bar> * pow2 e = \<bar>v - q\<bar>"
  proof -
    have "(of_int m - q / pow2 e) * pow2 e = v - q"
      using P by (simp add: v left_diff_distrib)
    then have "\<bar>v - q\<bar> = \<bar>(of_int m - q / pow2 e) * pow2 e\<bar>" by (simp only:)
    also have "\<dots> = \<bar>of_int m - q / pow2 e\<bar> * \<bar>pow2 e\<bar>" by (rule abs_mult)
    also have "\<bar>pow2 e\<bar> = pow2 e" using P by (rule abs_of_pos)
    finally show ?thesis by simp
  qed
  ultimately have err: "\<bar>v - q\<bar> \<le> pow2 e / 2" by simp
  have "0 < \<bar>q\<bar>" using False by simp
  from ilog2_bounds [OF this] have "\<bar>q\<bar> < pow2 (ilog2 \<bar>q\<bar> + 1)" by simp
  also have "\<dots> = 2 ^ 24 * pow2 (ilog2 \<bar>q\<bar> - 23)"
    using power_int_add [of "2::rat" 24 "ilog2 \<bar>q\<bar> - 23"] by (simp add: pow2_powi add.commute)
  also have "\<dots> \<le> 2 ^ 24 * pow2 e"
    unfolding e_def pow2_powi by (intro mult_left_mono power_int_increasing) simp_all
  finally have "\<bar>q\<bar> / pow2 e \<le> 2 ^ 24" using P by (simp add: pos_divide_le_eq less_imp_le)
  then have "\<bar>q / pow2 e\<bar> \<le> of_int (2 ^ 24)" using P by (simp add: abs_divide)
  then have "\<bar>m\<bar> \<le> 2 ^ 24" unfolding m_def by (rule round_even_mono_bound)
  with v err show ?thesis unfolding e_def by blast
qed

lemma round32_examples:
  "round32 (1 / 3) = Finite (11184811 / 2 ^ 25)"
  "round32 16777217 = Finite 16777216"
  "round32 16777219 = Finite 16777220"
  "round32 (1 / 2 ^ 150) = Finite 0"
  "round32 (3 / 2 ^ 150) = Finite (1 / 2 ^ 148)"
  "round32 ((2 ^ 24 - 1) * 2 ^ 104) = Finite ((2 ^ 24 - 1) * 2 ^ 104)"
  "round32 ((2 ^ 25 - 1) * 2 ^ 103 - 1) = Finite ((2 ^ 24 - 1) * 2 ^ 104)"
  "round32 ((2 ^ 25 - 1) * 2 ^ 103) = PInf"
  "round32 (- (2 ^ 128)) = NInf"
  by code_simp+

text \<open>Rounding is symmetric, so negation commutes with the operations.\<close>

lemma round_even_neg: "round_even (- r) = - round_even r"
proof (cases "r \<in> \<int>")
  case True
  then obtain z where "r = of_int z" by (auto elim: Ints_cases)
  then show ?thesis by (simp add: round_even_def flip: of_int_minus)
next
  case False
  have fl: "\<lfloor>- r\<rfloor> = - \<lfloor>r\<rfloor> - 1"
  proof -
    have "r \<noteq> of_int \<lfloor>r\<rfloor>" using False by (metis Ints_of_int)
    then show ?thesis by (simp add: floor_minus ceiling_altdef)
  qed
  let ?f = "\<lfloor>r\<rfloor>" and ?d = "r - of_int \<lfloor>r\<rfloor>"
  have d': "- r - of_int \<lfloor>- r\<rfloor> = 1 - ?d" by (simp add: fl)
  show ?thesis
    unfolding round_even_def Let_def d' unfolding fl
    by (auto simp: not_less)
qed

lemma round32_neg: "round32 (- q) = fneg (round32 q)"
  by (simp add: round32_def Let_def round_even_neg)

lemma fadd_fneg: "fadd (fneg x) (fneg y) = fneg (fadd x y)"
  by (cases x; cases y) (simp_all flip: round32_neg)

lemma fneg_fneg: "fneg (fneg x) = x"
  by (cases x) simp_all

lemma fsub_swap: "fsub x y = fneg (fsub y x)"
  by (simp add: fsub_def fadd_fneg [symmetric] fneg_fneg) (cases x; cases y; simp add: add.commute)

lemma fabs_fneg: "fabs (fneg x) = fabs x"
  by (cases x) simp_all

lemma reduce_map_fneg:
  "set (leaves p) \<subseteq> {..<length xs} \<Longrightarrow>
     reduce p (map fneg xs) = fneg (reduce p (xs :: float32 list))"
  by (induction p) (simp_all add: plus_float32_def fadd_fneg)

lemma round32_0: "round32 0 = Finite 0" by (simp add: round32_def)
lemma round32_1: "round32 1 = Finite 1" by code_simp
lemma round32_m1: "round32 (- 1) = Finite (- 1)" by code_simp

section \<open>The diagonal test\<close>

lemma reduce_NaN:
  "k \<in> set (leaves p) \<Longrightarrow> xs ! k = NaN \<Longrightarrow> reduce p xs = NaN"
proof (induction p)
  case (Leaf x)
  then show ?case by simp
next
  case (Node l r)
  then consider "reduce l xs = NaN" | "reduce r xs = NaN" by auto
  then show ?case
  proof cases
    case 1
    then show ?thesis by (simp add: plus_float32_def)
  next
    case 2
    then show ?thesis by (cases "reduce l xs") (simp_all add: plus_float32_def)
  qed
qed

lemma reduce_two_units:
  assumes "k1 \<noteq> k2"
    and "\<forall>k < length xs. xs ! k = Finite (if k = k1 then - 1 else if k = k2 then 1 else 0)"
  shows "distinct (leaves p) \<Longrightarrow> set (leaves p) \<subseteq> {..<length xs} \<Longrightarrow>
     reduce p xs =
       Finite ((if k2 \<in> set (leaves p) then 1 else 0) - (if k1 \<in> set (leaves p) then 1 else 0))"
proof (induction p)
  case (Leaf k)
  then show ?case using assms by auto
next
  case (Node l r)
  then have l: "reduce l xs =
       Finite ((if k2 \<in> set (leaves l) then 1 else 0) - (if k1 \<in> set (leaves l) then 1 else 0))"
    and r: "reduce r xs =
       Finite ((if k2 \<in> set (leaves r) then 1 else 0) - (if k1 \<in> set (leaves r) then 1 else 0))"
    and d: "set (leaves l) \<inter> set (leaves r) = {}"
    by auto
  show ?case
    using d by (auto simp: l r plus_float32_def round32_0 round32_1 round32_m1)
qed

lemma residual_code_nth:
  fixes M :: "float32 matrix"
  assumes wfM: "wf M" and sq: "nrows M = ncols M" and k: "k < nrows M * nrows M"
  shows "coeffs (cwise_minus (asDiagonal (diagonal M)) M) ! k =
           (if k mod nrows M = k div nrows M then coeff M (k mod nrows M) (k mod nrows M) else 0)
             - coeff M (k mod nrows M) (k div nrows M)"
proof -
  let ?n = "nrows M"
  let ?t = "asDiagonal (diagonal M)"
  have ld: "length (diagonal M) = ?n" using sq by (simp add: diagonal_def)
  have lt: "length (coeffs ?t) = ?n * ?n" using ld by (simp add: asDiagonal_def)
  have lm: "length (coeffs M) = ?n * ?n" using wfM sq by (simp add: wf_def)
  from k have pos: "0 < ?n" by (cases ?n) auto
  have m: "k mod ?n < ?n" using pos by simp
  have t: "coeffs ?t ! k = (if k mod ?n = k div ?n then diagonal M ! (k mod ?n) else 0)"
    using k ld by (simp add: asDiagonal_def)
  have d: "diagonal M ! (k mod ?n) = coeff M (k mod ?n) (k mod ?n)"
    using m sq by (simp add: diagonal_def)
  have x: "coeffs M ! k = coeff M (k mod ?n) (k div ?n)"
    by (simp add: coeff_def)
  have "coeffs (cwise_minus ?t M) ! k = coeffs ?t ! k - coeffs M ! k"
    using k lt lm by (simp add: cwise_minus_def)
  then show ?thesis unfolding t d x .
qed

lemma residual_code_length:
  fixes M :: "float32 matrix"
  assumes wfM: "wf M" and sq: "nrows M = ncols M"
  shows "length (coeffs (cwise_minus (asDiagonal (diagonal M)) M)) = nrows M * nrows M"
  using assms by (simp add: cwise_minus_def asDiagonal_def diagonal_def wf_def)

lemma residual_code_eq:
  fixes M :: "float32 matrix"
  assumes wfM: "wf M" and sq: "nrows M = ncols M"
  shows "coeffs (cwise_minus (asDiagonal (diagonal M)) M) = map fneg (residuals M)"
proof (rule nth_equalityI)
  show "length (coeffs (cwise_minus (asDiagonal (diagonal M)) M)) = length (map fneg (residuals M))"
    using residual_code_length [OF assms] sq by (simp add: residuals_def)
next
  fix k assume "k < length (coeffs (cwise_minus (asDiagonal (diagonal M)) M))"
  then have k: "k < nrows M * nrows M" using residual_code_length [OF assms] by simp
  have "residuals M ! k =
      coeff M (k mod nrows M) (k div nrows M)
        - (if k mod nrows M = k div nrows M then coeff M (k mod nrows M) (k mod nrows M) else 0)"
    using k sq by (simp add: residuals_def Let_def)
  then show "coeffs (cwise_minus (asDiagonal (diagonal M)) M) ! k = map fneg (residuals M) ! k"
    using k sq residual_code_nth [OF assms k]
    by (simp add: residuals_def minus_float32_def fsub_swap [symmetric])
qed

lemma isdiag_rounded_sum:
  fixes M :: "float32 matrix"
  assumes wfM: "wf M" and sq: "nrows M = ncols M" and pos: "0 < nrows M"
    and vp: "valid_plan (order (nrows M * ncols M)) (nrows M * ncols M)"
  shows "isdiag order M =
           (\<not> ge_double (fabs (reduce (order (nrows M * ncols M)) (residuals M))) double_0_00001)"
proof -
  let ?c = "coeffs (cwise_minus (asDiagonal (diagonal M)) M)"
  have len: "length ?c = nrows M * ncols M"
    using residual_code_length [OF wfM sq] sq by simp
  then have ne: "?c \<noteq> []" using pos sq by auto
  have lr: "length (residuals M) = nrows M * ncols M" by (simp add: residuals_def)
  have "sum_coeffs order (cwise_minus (asDiagonal (diagonal M)) M) =
        reduce (order (nrows M * ncols M)) (map fneg (residuals M))"
    using ne len by (simp add: sum_coeffs_def residual_code_eq [OF wfM sq] lr)
  also have "\<dots> = fneg (reduce (order (nrows M * ncols M)) (residuals M))"
    using vp lr by (intro reduce_map_fneg) (simp add: valid_plan_def)
  finally show ?thesis
    using sq by (simp add: isdiag_def Let_def fabs_fneg)
qed

lemma valid_left_comb: "distinct (leaves (left_comb k)) \<and> set (leaves (left_comb k)) = {..<Suc k}"
  by (induction k) (auto simp: lessThan_Suc)

lemma valid_storage_order: "0 < n \<Longrightarrow> valid_plan (storage_order n) n"
  using valid_left_comb [of "n - 1"] by (simp add: valid_plan_def storage_order_def)

lemma fsub_self: "fsub d d = (case d of Finite q \<Rightarrow> Finite 0 | _ \<Rightarrow> NaN)"
  by (cases d) (simp_all add: fsub_def round32_0)

lemma position_iff: "0 < n \<Longrightarrow> (k = j * n) = (k mod n = 0 \<and> k div n = (j::nat))"
  by auto

lemma isdiag_cancelling:
  fixes M :: "float32 matrix"
  assumes wfM: "wf M" and sq: "nrows M = ncols M" and n3: "3 \<le> nrows M"
    and vp: "valid_plan (order (nrows M * ncols M)) (nrows M * ncols M)"
    and e1: "coeff M 0 1 = Finite 1" and e2: "coeff M 0 2 = Finite (- 1)"
    and z: "\<forall>i < nrows M. \<forall>j < nrows M.
              i \<noteq> j \<and> (i, j) \<noteq> (0, 1) \<and> (i, j) \<noteq> (0, 2) \<longrightarrow> coeff M i j = Finite 0"
  shows "isdiag order M"
proof -
  let ?n = "nrows M"
  let ?c = "coeffs (cwise_minus (asDiagonal (diagonal M)) M)"
  let ?p = "order (?n * ?n)"
  have pos: "0 < ?n" using n3 by simp
  have len: "length ?c = ?n * ?n" by (rule residual_code_length [OF wfM sq])
  then have ne: "?c \<noteq> []" using pos by auto
  have sum: "sum_coeffs order (cwise_minus (asDiagonal (diagonal M)) M) = reduce ?p ?c"
    using ne len by (simp add: sum_coeffs_def)
  have vp': "distinct (leaves ?p)" "set (leaves ?p) = {..<?n * ?n}"
    using vp sq by (simp_all add: valid_plan_def)
  have nth: "?c ! k =
      (if k mod ?n = k div ?n then fsub (coeff M (k mod ?n) (k mod ?n)) (coeff M (k mod ?n) (k mod ?n))
       else fsub (Finite 0) (coeff M (k mod ?n) (k div ?n)))" if "k < ?n * ?n" for k
    using residual_code_nth [OF wfM sq that] by (simp add: minus_float32_def zero_float32_def)
  have quiet: "\<not> ge_double (fabs (reduce ?p ?c)) double_0_00001"
  proof (cases "\<forall>i < ?n. \<exists>d. coeff M i i = Finite d")
    case False
    then obtain i where i: "i < ?n" "\<forall>d. coeff M i i \<noteq> Finite d" by auto
    have k: "i * ?n + i < ?n * ?n" using i(1) by (simp add: index_less)
    have "?c ! (i * ?n + i) = fsub (coeff M i i) (coeff M i i)"
      using nth [OF k] i(1) by simp
    also have "\<dots> = NaN" using i(2) by (cases "coeff M i i") (simp_all add: fsub_self)
    finally have "reduce ?p ?c = NaN"
      using k vp'(2) by (intro reduce_NaN [of "i * ?n + i"]) simp_all
    then show ?thesis by simp
  next
    case True
    have pat: "\<forall>k < length ?c.
        ?c ! k = Finite (if k = 1 * ?n then - 1 else if k = 2 * ?n then 1 else 0)"
    proof (intro allI impI)
      fix k assume "k < length ?c"
      then have k: "k < ?n * ?n" using len by simp
      have m: "k mod ?n < ?n" using pos by simp
      have dv: "k div ?n < ?n" using k by (simp add: less_mult_imp_div_less)
      show "?c ! k = Finite (if k = 1 * ?n then - 1 else if k = 2 * ?n then 1 else 0)"
      proof (cases "k mod ?n = k div ?n")
        case same: True
        from True m obtain d where "coeff M (k mod ?n) (k mod ?n) = Finite d" by blast
        moreover have "k \<noteq> 1 * ?n" "k \<noteq> 2 * ?n"
          using same pos by (auto simp: position_iff)
        ultimately show ?thesis using nth [OF k] same by (simp add: fsub_self)
      next
        case diff: False
        consider "k = 1 * ?n" | "k = 2 * ?n" | "k \<noteq> 1 * ?n" "k \<noteq> 2 * ?n" by blast
        then show ?thesis
        proof cases
          case 1
          then have "k mod ?n = 0" "k div ?n = 1" using pos by simp_all
          then show ?thesis using nth [OF k] 1 e1 n3
            by (simp add: fsub_def round32_m1)
        next
          case 2
          then have "k mod ?n = 0" "k div ?n = 2" using pos by simp_all
          then show ?thesis using nth [OF k] 2 e2 n3
            by (simp add: fsub_def round32_1)
        next
          case 3
          then have "(k mod ?n, k div ?n) \<noteq> (0, 1)" "(k mod ?n, k div ?n) \<noteq> (0, 2)"
            using pos position_iff [of ?n k 1] position_iff [of ?n k 2] by auto
          with z m dv diff have "coeff M (k mod ?n) (k div ?n) = Finite 0" by blast
          then show ?thesis using nth [OF k] diff 3 by (simp add: fsub_def round32_0)
        qed
      qed
    qed
    have in1: "1 * ?n \<in> set (leaves ?p)" and in2: "2 * ?n \<in> set (leaves ?p)"
      using vp'(2) n3 by auto
    have "reduce ?p ?c =
       Finite ((if 2 * ?n \<in> set (leaves ?p) then 1 else 0) - (if 1 * ?n \<in> set (leaves ?p) then 1 else 0))"
      using pos vp' len by (intro reduce_two_units [OF _ pat]) auto
    then have "reduce ?p ?c = Finite 0" using in1 in2 by simp
    then show ?thesis by (simp add: double_0_00001_def)
  qed
  show ?thesis using sq quiet by (simp add: isdiag_def Let_def sum)
qed

text \<open>
  Rounding makes the test differ from its reading in exact arithmetic. In the matrix
  with rows \<open>(1, a)\<close> and \<open>(b, 1)\<close>, where \<open>a = 10995116 / 2 ^ 40\<close> is the float nearest to
  \<open>0.00001\<close> and \<open>b = 3 / 2 ^ 43\<close>, the residuals sum to \<open>a + b\<close>, which is above
  \<open>1 / 100000\<close>; every order of summation rounds the sum to \<open>a\<close>, which is below.
\<close>

lemma ex_round_a: "round32 (- (2748779 / 274877906944)) = Finite (- (2748779 / 274877906944))"
  by code_simp

lemma ex_round_b: "round32 (- (3 / 8796093022208)) = Finite (- (3 / 8796093022208))"
  by code_simp

lemma ex_round_ab:
  "round32 (- (87960931 / 8796093022208)) = Finite (- (2748779 / 274877906944))"
  by code_simp

lemma rounding_example_any_order:
  assumes vp: "valid_plan (order 4) 4"
  shows "isdiag order
     \<lparr>nrows = 2, ncols = 2,
      coeffs = [Finite 1, Finite (3 / 2 ^ 43), Finite (10995116 / 2 ^ 40), Finite 1]\<rparr>"
proof -
  let ?M = "\<lparr>nrows = 2, ncols = 2,
      coeffs = [Finite 1, Finite (3 / 2 ^ 43), Finite (10995116 / 2 ^ 40), Finite 1]\<rparr>"
  let ?xs = "[Finite 0, Finite (- (3 / 2 ^ 43)), Finite (- (10995116 / 2 ^ 40)), Finite 0]"
  have c: "coeffs (cwise_minus (asDiagonal (diagonal ?M)) ?M) = ?xs"
    by code_simp
  have inv: "distinct (leaves p) \<Longrightarrow> set (leaves p) \<subseteq> {..<4} \<Longrightarrow>
      reduce p ?xs =
        Finite (if 2 \<in> set (leaves p) then - (10995116 / 2 ^ 40)
                else if 1 \<in> set (leaves p) then - (3 / 2 ^ 43) else 0)" for p
  proof (induction p)
    case (Leaf k)
    then have "k = 0 \<or> k = 1 \<or> k = 2 \<or> k = 3" by auto
    then show ?case by auto
  next
    case (Node l r)
    then have l: "reduce l ?xs =
        Finite (if 2 \<in> set (leaves l) then - (10995116 / 2 ^ 40)
                else if 1 \<in> set (leaves l) then - (3 / 2 ^ 43) else 0)"
      and r: "reduce r ?xs =
        Finite (if 2 \<in> set (leaves r) then - (10995116 / 2 ^ 40)
                else if 1 \<in> set (leaves r) then - (3 / 2 ^ 43) else 0)"
      and d: "set (leaves l) \<inter> set (leaves r) = {}"
      by auto
    show ?case
      unfolding reduce.simps l r plus_float32_def fadd.simps
      using d by (auto simp: round32_0 ex_round_a ex_round_b ex_round_ab)
  qed
  have red: "reduce (order 4) ?xs = Finite (- (10995116 / 2 ^ 40))"
    using vp inv [of "order 4"] by (simp add: valid_plan_def)
  have s: "sum_coeffs order (cwise_minus (asDiagonal (diagonal ?M)) ?M) = reduce (order 4) ?xs"
    unfolding sum_coeffs_def c by (simp add: eval_nat_numeral)
  show ?thesis
    unfolding isdiag_def Let_def s red by (simp add: double_0_00001_def)
qed

text \<open>
  Claim C2 says that \<open>isdiag(M)\<close> is false when \<open>rows(M) \<noteq> cols(M)\<close> and that for a square
  \<open>M\<close> it is true if and only if the absolute value of the sum of all entries of \<open>M - D\<close>
  is below \<open>1e-5\<close>, where \<open>D\<close> has the diagonal of \<open>M\<close> and zeros elsewhere. The sum the
  header compares is a sum of floats, which is rounded.
  Claim C2, amended: \<open>isdiag(M)\<close> is false when \<open>rows(M) \<noteq> cols(M)\<close>. For a square \<open>M\<close>
  with at least one row it is true if and only if the single-precision sum of the
  entries of \<open>M - D\<close> (every difference and every partial sum rounded to a float, the
  additions grouped as the substrate groups them) is a NaN or is finite with an absolute
  value below the double \<^verbatim>\<open>0.00001\<close>; the header sums \<open>D - M\<close>, which gives the negated
  sum. In particular a square matrix with \<open>1\<close> at \<open>(0, 1)\<close>, \<open>- 1\<close> at \<open>(0, 2)\<close> and
  zeros elsewhere off the diagonal passes, whatever its diagonal and the grouping of the
  additions: the residuals cancel.
\<close>

theorem isdiag_float_sum:
  fixes M :: "float32 matrix"
  shows "(nrows M \<noteq> ncols M \<longrightarrow> \<not> isdiag order M) \<and>
   (wf M \<and> nrows M = ncols M \<and> 0 < nrows M \<and>
    valid_plan (order (nrows M * ncols M)) (nrows M * ncols M) \<longrightarrow>
      isdiag order M =
        (case reduce (order (nrows M * ncols M)) (residuals M) of
           Finite s \<Rightarrow> \<bar>s\<bar> < double_0_00001
         | NaN \<Rightarrow> True
         | _ \<Rightarrow> False)) \<and>
   (wf M \<and> nrows M = ncols M \<and> 3 \<le> nrows M \<and>
    valid_plan (order (nrows M * ncols M)) (nrows M * ncols M) \<and>
    coeff M 0 1 = Finite 1 \<and> coeff M 0 2 = Finite (- 1) \<and>
    (\<forall>i < nrows M. \<forall>j < nrows M.
        i \<noteq> j \<and> (i, j) \<noteq> (0, 1) \<and> (i, j) \<noteq> (0, 2) \<longrightarrow> coeff M i j = Finite 0) \<longrightarrow>
      isdiag order M)"
proof (intro conjI impI)
  assume "nrows M \<noteq> ncols M"
  then show "\<not> isdiag order M" by (simp add: isdiag_def)
next
  assume h: "wf M \<and> nrows M = ncols M \<and> 0 < nrows M \<and>
    valid_plan (order (nrows M * ncols M)) (nrows M * ncols M)"
  then have "isdiag order M =
      (\<not> ge_double (fabs (reduce (order (nrows M * ncols M)) (residuals M))) double_0_00001)"
    by (intro isdiag_rounded_sum) blast+
  then show "isdiag order M =
        (case reduce (order (nrows M * ncols M)) (residuals M) of
           Finite s \<Rightarrow> \<bar>s\<bar> < double_0_00001
         | NaN \<Rightarrow> True
         | _ \<Rightarrow> False)"
    by (cases "reduce (order (nrows M * ncols M)) (residuals M)") (simp_all add: not_le)
next
  assume "wf M \<and> nrows M = ncols M \<and> 3 \<le> nrows M \<and>
    valid_plan (order (nrows M * ncols M)) (nrows M * ncols M) \<and>
    coeff M 0 1 = Finite 1 \<and> coeff M 0 2 = Finite (- 1) \<and>
    (\<forall>i < nrows M. \<forall>j < nrows M.
        i \<noteq> j \<and> (i, j) \<noteq> (0, 1) \<and> (i, j) \<noteq> (0, 2) \<longrightarrow> coeff M i j = Finite 0)"
  then show "isdiag order M" by (intro isdiag_cancelling) blast+
qed


theorem isdiag_float_sum_witness:
  "wf \<lparr>nrows = 3, ncols = 3,
       coeffs = [Finite 2, Finite 0, Finite 0, Finite 1, Finite 3, Finite 0,
                 Finite (- 1), Finite 0, Finite 4]\<rparr> \<and>
   valid_plan (storage_order 9) 9 \<and>
   isdiag storage_order
     \<lparr>nrows = 3, ncols = 3,
      coeffs = [Finite 2, Finite 0, Finite 0, Finite 1, Finite 3, Finite 0,
                Finite (- 1), Finite 0, Finite 4]\<rparr> \<and>
   \<not> isdiag storage_order
     \<lparr>nrows = 3, ncols = 3,
      coeffs = [Finite 2, Finite 0, Finite 0, Finite 0, Finite 3, Finite 0,
                Finite 0, Finite 1, Finite 4]\<rparr> \<and>
   \<not> isdiag storage_order
     \<lparr>nrows = 3, ncols = 2,
      coeffs = [Finite 1, Finite 0, Finite 0, Finite 0, Finite 1, Finite 0]\<rparr>"
proof -
  let ?M = "\<lparr>nrows = 3, ncols = 3,
      coeffs = [Finite 2, Finite 0, Finite 0, Finite 1, Finite 3, Finite 0,
                Finite (- 1), Finite 0, Finite 4]\<rparr>"
  let ?P = "\<lparr>nrows = 3, ncols = 3,
      coeffs = [Finite 2, Finite 0, Finite 0, Finite 0, Finite 3, Finite 0,
                Finite 0, Finite 1, Finite 4]\<rparr>"
  let ?N = "\<lparr>nrows = 3, ncols = 2,
      coeffs = [Finite 1, Finite 0, Finite 0, Finite 0, Finite 1, Finite 0]\<rparr>"
  have v: "valid_plan (storage_order 9) 9" by (rule valid_storage_order) simp
  have w: "wf ?M" "wf ?P" by (simp_all add: wf_def)
  have s: "nrows ?M = ncols ?M" "3 \<le> nrows ?M" "nrows ?P = ncols ?P" "0 < nrows ?P"
      "nrows ?N \<noteq> ncols ?N"
    by simp_all
  have vM: "valid_plan (storage_order (nrows ?M * ncols ?M)) (nrows ?M * ncols ?M)"
    and vP: "valid_plan (storage_order (nrows ?P * ncols ?P)) (nrows ?P * ncols ?P)"
    using v by simp_all
  have z: "\<forall>i < nrows ?M. \<forall>j < nrows ?M.
        i \<noteq> j \<and> (i, j) \<noteq> (0, 1) \<and> (i, j) \<noteq> (0, 2) \<longrightarrow> coeff ?M i j = Finite 0"
    by (simp add: coeff_def numeral_3_eq_3 All_less_Suc)
  have e: "coeff ?M 0 1 = Finite 1" "coeff ?M 0 2 = Finite (- 1)" by (simp_all add: coeff_def)
  have "isdiag storage_order ?M"
    using isdiag_float_sum [of ?M storage_order] w(1) s(1,2) vM e z by blast
  moreover have r: "reduce (storage_order (nrows ?P * ncols ?P)) (residuals ?P) = Finite 1"
    by code_simp
  have "isdiag storage_order ?P =
      (case reduce (storage_order (nrows ?P * ncols ?P)) (residuals ?P) of
         Finite s \<Rightarrow> \<bar>s\<bar> < double_0_00001 | NaN \<Rightarrow> True | _ \<Rightarrow> False)"
    using isdiag_float_sum [of ?P storage_order] w(2) s(3,4) vP by blast
  then have "\<not> isdiag storage_order ?P" unfolding r by (simp add: double_0_00001_def)
  moreover have "\<not> isdiag storage_order ?N"
    using isdiag_float_sum [of ?N storage_order] s(5) by blast
  ultimately show ?thesis using w v by simp
qed

text \<open>
  The counterexample to claim C2 as stated: the matrix with rows \<open>(1, a)\<close> and \<open>(b, 1)\<close>,
  \<open>a = 10995116 / 2 ^ 40\<close> and \<open>b = 3 / 2 ^ 43\<close>, all of whose entries are floats. Summed
  in storage order the test is true, and the absolute value of the exact sum of the
  residuals is not below \<open>1 / 100000\<close>.
\<close>

theorem isdiag_exact_sum_differs:
  "wf \<lparr>nrows = 2, ncols = 2,
       coeffs = [Finite 1, Finite (3 / 2 ^ 43), Finite (10995116 / 2 ^ 40), Finite 1]\<rparr> \<and>
   is_float32 (Finite (3 / 2 ^ 43)) \<and> is_float32 (Finite (10995116 / 2 ^ 40)) \<and>
   isdiag storage_order
     \<lparr>nrows = 2, ncols = 2,
      coeffs = [Finite 1, Finite (3 / 2 ^ 43), Finite (10995116 / 2 ^ 40), Finite 1]\<rparr> \<and>
   \<not> is_diagonal_exact
     \<lparr>nrows = 2, ncols = 2,
      coeffs = [Finite 1, Finite (3 / 2 ^ 43), Finite (10995116 / 2 ^ 40), Finite 1]\<rparr>"
  by code_simp


end
